theory Spec2Isabelle
  imports Main "HOL-Library.Sublist" "HOL-Library.Multiset"
    "HOL-Library.Product_Lexorder" "HOL-Library.List_Lexorder" "HOL-Library.Log_Nat"
begin

section \<open>Python strings\<close>

text \<open>
  A Python \<open>str\<close> is a sequence of Unicode code points; a code point is modelled as a
  natural number and a string as a list of them, so that \<open>len\<close>, slicing and indexing
  count what Python counts.  \<open>py\<close> turns an ASCII literal into such a string.
\<close>

type_synonym pychar = nat
type_synonym pystr = "pychar list"

definition py :: "string \<Rightarrow> pystr" where
  "py s = map of_char s"

text \<open>
  \<open>str.isspace\<close> of one character, the table of CPython's \<open>_PyUnicode_IsWhitespace\<close>:
  it decides what \<open>str.split()\<close>, \<open>str.strip()\<close> and the regular expression class
  \<open>\s\<close> treat as whitespace.
\<close>

definition isspace :: "pychar \<Rightarrow> bool" where
  "isspace c = ((9 \<le> c \<and> c \<le> 13) \<or> (28 \<le> c \<and> c \<le> 32) \<or> c = 133 \<or> c = 160
     \<or> c = 5760 \<or> (8192 \<le> c \<and> c \<le> 8202) \<or> c = 8232 \<or> c = 8233
     \<or> c = 8239 \<or> c = 8287 \<or> c = 12288)"

text \<open>\<open>s.strip()\<close>: whitespace removed at both ends.\<close>

definition strip :: "pystr \<Rightarrow> pystr" where
  "strip s = rev (dropWhile isspace (rev (dropWhile isspace s)))"

text \<open>
  \<open>s.split()\<close> without argument: the maximal runs of non-whitespace characters, in
  order.  The scan keeps the word being read in \<open>w\<close>.
\<close>

fun split_ws_from :: "pystr \<Rightarrow> pystr \<Rightarrow> pystr list" where
  "split_ws_from w [] = (if w = [] then [] else [w])"
| "split_ws_from w (c # cs) =
     (if isspace c then (if w = [] then split_ws_from [] cs else w # split_ws_from [] cs)
      else split_ws_from (w @ [c]) cs)"

definition split_ws :: "pystr \<Rightarrow> pystr list" where
  "split_ws s = split_ws_from [] s"

text \<open>\<open>s.split(sep)\<close> for a one-character separator: never an empty list.\<close>

fun split_on :: "pychar \<Rightarrow> pystr \<Rightarrow> pystr list" where
  "split_on sep [] = [[]]"
| "split_on sep (c # cs) =
     (if c = sep then [] # split_on sep cs
      else (case split_on sep cs of [] \<Rightarrow> [[c]] | w # ws \<Rightarrow> (c # w) # ws))"

text \<open>\<open>sep.join(xs)\<close>.\<close>

fun join :: "pystr \<Rightarrow> pystr list \<Rightarrow> pystr" where
  "join sep [] = []"
| "join sep [x] = x"
| "join sep (x # y # ys) = x @ sep @ join sep (y # ys)"

text \<open>\<open>s.replace(c, new)\<close> for a one-character \<open>c\<close>: every occurrence is replaced.\<close>

definition replace_chr :: "pychar \<Rightarrow> pystr \<Rightarrow> pystr \<Rightarrow> pystr" where
  "replace_chr c new s = concat (map (\<lambda>x. if x = c then new else [x]) s)"

text \<open>\<open>kw in t\<close> on strings: \<open>kw\<close> occurs in \<open>t\<close> as a contiguous substring.\<close>

fun contains :: "pystr \<Rightarrow> pystr \<Rightarrow> bool" where
  "contains [] kw = (kw = [])"
| "contains (c # cs) kw = (prefix kw (c # cs) \<or> contains cs kw)"

section \<open>What the Python runtime supplies\<close>

text \<open>
  The Unicode case and category tables belong to the interpreter, not to the repository.
  The functions that read them take them as a parameter: \<open>str_lower\<close> is \<open>str.lower\<close>,
  \<open>chr_tolower\<close> the one-character lower-casing that \<open>re.I\<close> matches with, and
  \<open>chr_isalnum\<close> the alphanumeric test behind the class \<open>\w\<close>.  \<open>ascii_db\<close> is their
  restriction to ASCII, where it agrees with every Python version.
\<close>

record unicode_db =
  str_lower :: "pystr \<Rightarrow> pystr"
  chr_tolower :: "pychar \<Rightarrow> pychar"
  chr_isalnum :: "pychar \<Rightarrow> bool"

definition ascii_tolower :: "pychar \<Rightarrow> pychar" where
  "ascii_tolower c = (if 65 \<le> c \<and> c \<le> 90 then c + 32 else c)"

definition ascii_isalnum :: "pychar \<Rightarrow> bool" where
  "ascii_isalnum c = ((48 \<le> c \<and> c \<le> 57) \<or> (65 \<le> c \<and> c \<le> 90) \<or> (97 \<le> c \<and> c \<le> 122))"

definition ascii_db :: unicode_db where
  "ascii_db = \<lparr> str_lower = map ascii_tolower, chr_tolower = ascii_tolower,
     chr_isalnum = ascii_isalnum \<rparr>"

datatype error = IndexError | KeyError | AttributeError | OSError | RequestException

section \<open>Python floats\<close>

text \<open>
  A \<open>float\<close> is an IEEE binary64 number, modelled by the rational it denotes.  Every
  arithmetic operation computes the exact result and rounds it with \<open>fl\<close> to the nearest
  number with a 53-bit significand, ties to the even significand.  The exponent is not
  bounded here: \<open>fl\<close> is binary64 rounding for magnitudes between \<open>2^-1022\<close> and
  \<open>2^1024\<close>, which covers every score of a section of fewer than \<open>2^1000\<close> words.
\<close>

definition pow2 :: "int \<Rightarrow> rat" where
  "pow2 e = (if 0 \<le> e then 2 ^ nat e else 1 / 2 ^ nat (- e))"

text \<open>For \<open>x > 0\<close>, the exponent \<open>e\<close> with \<open>2^e \<le> x < 2^(e+1)\<close>.\<close>

definition ilog2 :: "rat \<Rightarrow> int" where
  "ilog2 x = (let e = bitlen (fst (quotient_of x)) - bitlen (snd (quotient_of x))
     in if pow2 e \<le> x then e else e - 1)"

definition round_half_even :: "rat \<Rightarrow> int" where
  "round_half_even q = (let n = \<lfloor>q\<rfloor>; r = q - of_int n
     in if r < 1 / 2 then n else if 1 / 2 < r then n + 1 else if even n then n else n + 1)"

definition fl :: "rat \<Rightarrow> rat" where
  "fl x = (if x = 0 then 0
     else let u = pow2 (ilog2 \<bar>x\<bar> - 52) in sgn x * of_int (round_half_even (\<bar>x\<bar> / u)) * u)"

definition fadd :: "rat \<Rightarrow> rat \<Rightarrow> rat" where
  "fadd a b = fl (a + b)"

definition fsub :: "rat \<Rightarrow> rat \<Rightarrow> rat" where
  "fsub a b = fl (a - b)"

definition fmul :: "rat \<Rightarrow> rat \<Rightarrow> rat" where
  "fmul a b = fl (a * b)"

text \<open>\<open>a / b\<close> on two Python ints (\<open>b\<close> is a non-zero constant wherever the program divides).\<close>

definition int_truediv :: "int \<Rightarrow> int \<Rightarrow> rat" where
  "int_truediv a b = fl (of_int a / of_int b)"

text \<open>The implicit conversion of an int operand of a float operation.\<close>

definition float_of_int :: "int \<Rightarrow> rat" where
  "float_of_int n = fl (of_int n)"

section \<open>Regular expressions of the \<open>re\<close> module\<close>

text \<open>
  The patterns of this program are built from character classes, sequence, alternation,
  greedy and lazy repetition, capturing groups and the word boundary \<open>\b\<close>.  The matcher
  is the backtracking one of CPython: \<open>ends r txt (i, g)\<close> lists, in the order in which
  backtracking tries them, the states (end position, captured groups) in which \<open>r\<close> can
  match from position \<open>i\<close> with the groups \<open>g\<close>.  A repetition stops at an iteration that
  consumes nothing, as the engine does; the bodies repeated in this program always
  consume one character.
\<close>

datatype regex =
    Cls "pychar \<Rightarrow> bool"
  | Eps
  | Seq regex regex
  | Alt regex regex
  | Star regex
  | Lazy regex
  | Grp nat regex
  | Bnd "pychar \<Rightarrow> bool"

type_synonym caps = "nat \<rightharpoonup> nat \<times> nat"
type_synonym mstate = "nat \<times> caps"

function ends :: "regex \<Rightarrow> pystr \<Rightarrow> mstate \<Rightarrow> mstate list" where
  "ends (Cls p) txt (i, g) = (if i < length txt \<and> p (txt ! i) then [(Suc i, g)] else [])"
| "ends Eps txt (i, g) = [(i, g)]"
| "ends (Seq a b) txt (i, g) = concat (map (ends b txt) (ends a txt (i, g)))"
| "ends (Alt a b) txt (i, g) = ends a txt (i, g) @ ends b txt (i, g)"
| "ends (Star a) txt (i, g) =
     concat (map (\<lambda>st. if i < fst st \<and> fst st \<le> length txt then ends (Star a) txt st else [])
       (ends a txt (i, g))) @ [(i, g)]"
| "ends (Lazy a) txt (i, g) =
     (i, g) # concat (map (\<lambda>st. if i < fst st \<and> fst st \<le> length txt then ends (Lazy a) txt st else [])
       (ends a txt (i, g)))"
| "ends (Grp n a) txt (i, g) = map (\<lambda>st. (fst st, (snd st)(n \<mapsto> (i, fst st)))) (ends a txt (i, g))"
| "ends (Bnd w) txt (i, g) =
     (if (0 < i \<and> i \<le> length txt \<and> w (txt ! (i - 1))) \<noteq> (i < length txt \<and> w (txt ! i))
      then [(i, g)] else [])"
  by pat_completeness auto
termination
  by (relation "inv_image (less_than <*lex*> less_than)
        (\<lambda>(r, txt, st). (size r, Suc (length txt) - fst st))") auto

text \<open>
  One attempt at position \<open>i\<close>: the first state that backtracking reaches.  With
  \<open>must_advance\<close> set (after an empty match that ended here) an empty match is refused.
\<close>

definition match_at :: "regex \<Rightarrow> pystr \<Rightarrow> nat \<Rightarrow> bool \<Rightarrow> mstate option" where
  "match_at r txt i adv = find (\<lambda>st. i < fst st \<or> \<not> adv) (ends r txt (i, Map.empty))"

text \<open>The search of the engine: the leftmost position from \<open>i\<close> on at which \<open>r\<close> matches.\<close>

function search :: "regex \<Rightarrow> pystr \<Rightarrow> nat \<Rightarrow> bool \<Rightarrow> (nat \<times> nat \<times> caps) option" where
  "search r txt i adv =
     (if length txt < i then None
      else case match_at r txt i adv of
        Some (j, g) \<Rightarrow> Some (i, j, g)
      | None \<Rightarrow> search r txt (Suc i) False)"
  by pat_completeness auto
termination
  by (relation "measure (\<lambda>(r, txt, i, adv). Suc (length txt) - i)") auto

text \<open>\<open>m.group(k)\<close>: \<open>None\<close> for a group that took no part in the match.\<close>

definition group :: "pystr \<Rightarrow> caps \<Rightarrow> nat \<Rightarrow> pystr option" where
  "group txt g k = map_option (\<lambda>(a, b). take (b - a) (drop a txt)) (g k)"

text \<open>
  The loops of \<open>re.sub\<close> and \<open>re.split\<close>: search from the end \<open>i\<close> of the previous match,
  emit the text before the match and the replacement (or the piece and the groups), and
  go on from the end of the match, with \<open>must_advance\<close> set when the match was empty.
  The test before the recursive call holds for every result of \<open>search\<close>; it is what makes
  the loop terminate.
\<close>

function sub_loop :: "regex \<Rightarrow> (caps \<Rightarrow> pystr) \<Rightarrow> pystr \<Rightarrow> nat \<Rightarrow> bool \<Rightarrow> pystr" where
  "sub_loop r repl txt i adv =
     (case search r txt i adv of
        None \<Rightarrow> drop i txt
      | Some (s, e, g) \<Rightarrow>
          take (s - i) (drop i txt) @ repl g @
          (if i \<le> s \<and> s \<le> e \<and> e \<le> length txt \<and> (i < e \<or> \<not> adv)
           then sub_loop r repl txt e (e = s) else drop e txt))"
  by pat_completeness auto
termination
  by (relation "measure (\<lambda>(r, repl, txt, i, adv). 2 * (length txt - i) + (if adv then 0 else 1))")
     auto

function split_loop :: "regex \<Rightarrow> nat \<Rightarrow> pystr \<Rightarrow> nat \<Rightarrow> bool \<Rightarrow> pystr option list" where
  "split_loop r n txt i adv =
     (case search r txt i adv of
        None \<Rightarrow> [Some (drop i txt)]
      | Some (s, e, g) \<Rightarrow>
          Some (take (s - i) (drop i txt)) # map (group txt g) [1 ..< Suc n] @
          (if i \<le> s \<and> s \<le> e \<and> e \<le> length txt \<and> (i < e \<or> \<not> adv)
           then split_loop r n txt e (e = s) else [Some (drop e txt)]))"
  by pat_completeness auto
termination
  by (relation "measure (\<lambda>(r, n, txt, i, adv). 2 * (length txt - i) + (if adv then 0 else 1))")
     auto

declare ends.simps [simp del] search.simps [simp del] sub_loop.simps [simp del]
  split_loop.simps [simp del]

text \<open>\<open>re.search(r, txt)\<close>: start, end and groups of the first match.\<close>

definition re_search :: "regex \<Rightarrow> pystr \<Rightarrow> (nat \<times> nat \<times> caps) option" where
  "re_search r txt = search r txt 0 False"

text \<open>\<open>re.sub(r, repl, txt)\<close>; the replacement may refer to the groups.\<close>

definition re_sub :: "regex \<Rightarrow> (caps \<Rightarrow> pystr) \<Rightarrow> pystr \<Rightarrow> pystr" where
  "re_sub r repl txt = sub_loop r repl txt 0 False"

text \<open>\<open>re.split(r, txt)\<close> for a pattern with \<open>n\<close> groups: pieces and groups, alternating.\<close>

definition re_split :: "regex \<Rightarrow> nat \<Rightarrow> pystr \<Rightarrow> pystr option list" where
  "re_split r n txt = split_loop r n txt 0 False"

text \<open>\<open>txt[a:b]\<close> for \<open>0 \<le> a\<close> and \<open>0 \<le> b\<close>.\<close>

definition slice :: "pystr \<Rightarrow> nat \<Rightarrow> nat \<Rightarrow> pystr" where
  "slice txt a b = take (b - a) (drop a txt)"

subsection \<open>Pattern syntax\<close>

definition lit :: "pychar \<Rightarrow> regex" where
  "lit x = Cls (\<lambda>c. c = x)"

definition seqs :: "regex list \<Rightarrow> regex" where
  "seqs rs = foldr Seq rs Eps"

text \<open>\<open>r+\<close> and \<open>r?\<close>, both greedy.\<close>

definition plus :: "regex \<Rightarrow> regex" where
  "plus r = Seq r (Star r)"

definition opt :: "regex \<Rightarrow> regex" where
  "opt r = Alt r Eps"

text \<open>
  A letter of a pattern compiled with \<open>re.I\<close> matches the characters whose lower case is
  the letter's lower case or one of its case-folding equivalents (for the letters of this
  program's patterns: dotless i for \<open>i\<close>, long s for \<open>s\<close>); any other pattern character
  matches itself.
\<close>

definition ignorecase_fixes :: "pychar \<Rightarrow> pychar list" where
  "ignorecase_fixes lo = (if lo = 105 then [305] else if lo = 115 then [383] else [])"

definition ci_match :: "unicode_db \<Rightarrow> pychar \<Rightarrow> pychar \<Rightarrow> bool" where
  "ci_match U x c =
     (if (65 \<le> x \<and> x \<le> 90) \<or> (97 \<le> x \<and> x \<le> 122)
      then chr_tolower U c \<in> set (ascii_tolower x # ignorecase_fixes (ascii_tolower x))
      else c = x)"

definition ci_lits :: "unicode_db \<Rightarrow> pystr \<Rightarrow> regex list" where
  "ci_lits U w = map (\<lambda>x. Cls (ci_match U x)) w"

text \<open>\<open>\s\<close>, \<open>\w\<close>, \<open>.\<close> without and with \<open>re.S\<close>.\<close>

definition ws :: regex where
  "ws = Cls isspace"

definition is_word :: "unicode_db \<Rightarrow> pychar \<Rightarrow> bool" where
  "is_word U c = (chr_isalnum U c \<or> c = 95)"

definition dot :: regex where
  "dot = Cls (\<lambda>c. c \<noteq> 10)"

definition anychar :: regex where
  "anychar = Cls (\<lambda>c. True)"

section \<open>The section selector\<close>

text \<open>
  \<^verbatim>\<open>def choose_important_section(chunks)\<close>.  A section is a (title, content) pair.
\<close>

type_synonym chunk = "pystr \<times> pystr"

definition KEYWORDS :: "pystr list" where
  "KEYWORDS = map py [''introduction'', ''preface'', ''foreword'', ''self-reliance'',
     ''character'', ''discipline'', ''habit'', ''leadership'', ''strategy'', ''decision'',
     ''time'', ''focus'', ''resolve'', ''courage'', ''thought and character'', ''purpose'',
     ''planning'']"

text \<open>\<^verbatim>\<open>for kw in KEYWORDS: if kw in t: kw_score += 0.7\<close>\<close>

fun kw_loop :: "pystr \<Rightarrow> pystr list \<Rightarrow> rat \<Rightarrow> rat" where
  "kw_loop t [] kw_score = kw_score"
| "kw_loop t (kw # kws) kw_score =
     kw_loop t kws (if contains t kw then fadd kw_score (fl (7 / 10)) else kw_score)"

text \<open>The body of the scoring loop: the score of the section at index \<open>idx\<close>.\<close>

definition section_score :: "unicode_db \<Rightarrow> nat \<Rightarrow> pystr \<Rightarrow> pystr \<Rightarrow> rat" where
  "section_score U idx title content =
     (let words = int (length (split_ws content));
          target_low = 220; target_high = 900;
          length_score = (if words < target_low
                          then fsub 1 (int_truediv (target_low - words) target_low)
                          else if words > target_high
                          then fsub 1 (int_truediv (words - target_high) target_high)
                          else 1);
          t = str_lower U (title @ [10] @ take 300 content);
          kw_score = kw_loop t KEYWORDS 0;
          pos_score = max 0 (fsub (1 / 2) (fmul (float_of_int (int idx)) (fl (3 / 100))))
      in fadd (fadd length_score kw_score) pos_score)"

type_synonym scored_chunk = "rat \<times> nat \<times> pystr \<times> pystr"

text \<open>\<^verbatim>\<open>scored.append((score, idx, title, content))\<close> for every section, in order.\<close>

definition scored :: "unicode_db \<Rightarrow> chunk list \<Rightarrow> scored_chunk list" where
  "scored U chunks =
     map (\<lambda>(idx, title, content). (section_score U idx title content, idx, title, content))
       (zip [0 ..< length chunks] chunks)"

text \<open>
  \<^verbatim>\<open>xs.sort(reverse=True)\<close>: CPython reverses the list, sorts it stably in ascending
  order and reverses it again.  Tuples compare lexicographically, strings by code point.
\<close>

definition sort_reverse :: "('a :: linorder) list \<Rightarrow> 'a list" where
  "sort_reverse xs = rev (sort (rev xs))"

definition ranked :: "unicode_db \<Rightarrow> chunk list \<Rightarrow> scored_chunk list" where
  "ranked U chunks = sort_reverse (scored U chunks)"

text \<open>\<^verbatim>\<open>paras = [p.strip() for p in content.split("\n") if p.strip()]\<close>\<close>

definition paras :: "pystr \<Rightarrow> pystr list" where
  "paras content = map strip (filter (\<lambda>p. strip p \<noteq> []) (split_on 10 content))"

text \<open>
  The inner loop over \<open>paras\<close>, with its \<open>break\<close>:
  \<^verbatim>\<open>w = len(p.split()); if wcount + w > 580 and sel: break; sel.append(p); wcount += w\<close>
\<close>

fun trim_loop :: "pystr list \<Rightarrow> pystr list \<Rightarrow> nat \<Rightarrow> pystr list" where
  "trim_loop [] sel wcount = sel"
| "trim_loop (p # ps) sel wcount =
     (let w = length (split_ws p)
      in if wcount + w > 580 \<and> sel \<noteq> [] then sel
         else trim_loop ps (sel @ [p]) (wcount + w))"

definition trim_sel :: "pystr \<Rightarrow> pystr list" where
  "trim_sel content = trim_loop (paras content) [] 0"

text \<open>\<^verbatim>\<open>chosen = "\n\n".join(sel).strip()\<close>\<close>

definition chosen :: "pystr \<Rightarrow> pystr" where
  "chosen content = strip (join [10, 10] (trim_sel content))"

text \<open>The loop over the ranked candidates, left at the first \<open>return\<close>.\<close>

fun candidates_loop :: "scored_chunk list \<Rightarrow> chunk option" where
  "candidates_loop [] = None"
| "candidates_loop ((score, idx, title, content) # rest) =
     (if length (split_ws (chosen content)) \<ge> 220 then Some (title, chosen content)
      else candidates_loop rest)"

definition choose_important_section :: "unicode_db \<Rightarrow> chunk list \<Rightarrow> error + chunk" where
  "choose_important_section U chunks =
     (case candidates_loop (ranked U chunks) of
        Some r \<Rightarrow> Inr r
      | None \<Rightarrow> (case chunks of
          [] \<Rightarrow> Inl IndexError
        | (title, content) # _ \<Rightarrow> Inr (title, take 1200 content)))"

text \<open>The words of the specification, for comparison with the loop body.\<close>

definition word_count :: "pystr \<Rightarrow> nat" where
  "word_count s = length (split_ws s)"

definition length_fit :: "nat \<Rightarrow> rat" where
  "length_fit w = (if w < 220 then fsub 1 (fl (of_nat (220 - w) / 220))
     else if 900 < w then fsub 1 (fl (of_nat (w - 900) / 900)) else 1)"

definition keyword_matches :: "unicode_db \<Rightarrow> pystr \<Rightarrow> pystr \<Rightarrow> pystr list" where
  "keyword_matches U title content =
     filter (\<lambda>kw. sublist kw (str_lower U (title @ [10] @ take 300 content))) KEYWORDS"

definition keyword_boost :: "nat \<Rightarrow> rat" where
  "keyword_boost n = ((\<lambda>a. fadd a (fl (7 / 10))) ^^ n) 0"

definition position_boost :: "nat \<Rightarrow> rat" where
  "position_boost i = max 0 (fsub (1 / 2) (fmul (fl (of_nat i)) (fl (3 / 100))))"

definition word_total :: "pystr list \<Rightarrow> nat" where
  "word_total ps = sum_list (map word_count ps)"

definition reaches_minimum :: "pystr \<Rightarrow> bool" where
  "reaches_minimum content = (220 \<le> word_count (chosen content))"

text \<open>
  Sample inputs: \<open>n\<close> one-word lines, \<open>n\<close> words on one line, and nineteen sections of
  which only the last two are long enough to be returned.
\<close>

definition sample_lines :: "nat \<Rightarrow> pystr" where
  "sample_lines n = concat (replicate n [97, 10])"

definition sample_words :: "nat \<Rightarrow> pystr" where
  "sample_words n = concat (replicate n [97, 32])"

definition tie_chunks :: "chunk list" where
  "tie_chunks = map (\<lambda>i. ([65 + i], if i < 17 then [] else sample_lines 220)) [0 ..< 19]"

section \<open>Stripper, normalizer and segmenter\<close>

text \<open>
  \<^verbatim>\<open>start = re.search(r"\*\*\* START OF(.*?)\*\*\*", txt, flags=re.I|re.S)\<close> and the same
  with \<open>END OF\<close>.
\<close>

definition marker_re :: "unicode_db \<Rightarrow> pystr \<Rightarrow> regex" where
  "marker_re U w = seqs (ci_lits U w @ [Grp 1 (Lazy anychar)] @ ci_lits U (py ''***''))"

definition strip_gutenberg_boilerplate :: "unicode_db \<Rightarrow> pystr \<Rightarrow> pystr" where
  "strip_gutenberg_boilerplate U txt =
     (let start = re_search (marker_re U (py ''*** START OF'')) txt;
          end = re_search (marker_re U (py ''*** END OF'')) txt;
          body = slice txt (case start of Some (s, e, g) \<Rightarrow> e | None \<Rightarrow> 0)
                           (case end of Some (s, e, g) \<Rightarrow> s | None \<Rightarrow> length txt);
          body = re_sub (lit 13) (\<lambda>g. []) body
      in strip body)"

text \<open>
  The markers in the words of the specification: the opening words occur at \<open>s\<close> in any
  letter case, the closing token is the first \<open>***\<close> at or after their end, and the
  marker found is the leftmost one.  A marker is given by its start and its end.
\<close>

definition opening_at :: "unicode_db \<Rightarrow> pystr \<Rightarrow> pystr \<Rightarrow> nat \<Rightarrow> bool" where
  "opening_at U w txt s =
     (s + length w \<le> length txt \<and> list_all2 (ci_match U) w (take (length w) (drop s txt)))"

definition closing_at :: "pystr \<Rightarrow> nat \<Rightarrow> bool" where
  "closing_at txt k = (take 3 (drop k txt) = py ''***'')"

definition marker_at :: "unicode_db \<Rightarrow> pystr \<Rightarrow> pystr \<Rightarrow> nat \<Rightarrow> (nat \<times> nat) option" where
  "marker_at U w txt s =
     (if opening_at U w txt s
      then map_option (\<lambda>k. (s, k + 3)) (find (closing_at txt) [s + length w ..< Suc (length txt)])
      else None)"

definition first_marker :: "unicode_db \<Rightarrow> pystr \<Rightarrow> pystr \<Rightarrow> (nat \<times> nat) option" where
  "first_marker U w txt =
     Option.bind (find (\<lambda>s. marker_at U w txt s \<noteq> None) [0 ..< Suc (length txt)])
       (marker_at U w txt)"

text \<open>
  \<^verbatim>\<open>re.sub(r'[ \t\f\v]+', ' ', re.sub(r'\n{2,}', '\n\n', txt)).strip()\<close>
\<close>

definition is_hspace :: "pychar \<Rightarrow> bool" where
  "is_hspace c = (c = 32 \<or> c = 9 \<or> c = 12 \<or> c = 11)"

definition newlines_re :: regex where
  "newlines_re = seqs [lit 10, lit 10, Star (lit 10)]"

definition hspace_re :: regex where
  "hspace_re = plus (Cls is_hspace)"

definition normalize_spaces :: "pystr \<Rightarrow> pystr" where
  "normalize_spaces txt =
     strip (re_sub hspace_re (\<lambda>g. [32]) (re_sub newlines_re (\<lambda>g. [10, 10]) txt))"

text \<open>
  What the two substitutions compute, written as scans of the text: a run of two or more
  newlines becomes two newlines, a run of horizontal whitespace becomes one space.  The
  texts that the scans leave unchanged have no three newlines in a row, and have single
  spaces as their only horizontal whitespace.
\<close>

function squeeze_nl :: "pystr \<Rightarrow> pystr" where
  "squeeze_nl [] = []"
| "squeeze_nl (c # cs) =
     (if c = 10 \<and> cs \<noteq> [] \<and> hd cs = 10 then [10, 10] @ squeeze_nl (dropWhile (\<lambda>x. x = 10) cs)
      else c # squeeze_nl cs)"
  by pat_completeness auto
termination
  by (relation "measure length") (auto intro: le_imp_less_Suc length_dropWhile_le)

function squeeze_hs :: "pystr \<Rightarrow> pystr" where
  "squeeze_hs [] = []"
| "squeeze_hs (c # cs) =
     (if is_hspace c then 32 # squeeze_hs (dropWhile is_hspace cs) else c # squeeze_hs cs)"
  by pat_completeness auto
termination
  by (relation "measure length") (auto intro: le_imp_less_Suc length_dropWhile_le)

fun nl_ok :: "pystr \<Rightarrow> bool" where
  "nl_ok [] = True"
| "nl_ok (c # cs) = (\<not> prefix [10, 10, 10] (c # cs) \<and> nl_ok cs)"

fun hs_ok :: "pystr \<Rightarrow> bool" where
  "hs_ok [] = True"
| "hs_ok (c # cs) = ((if is_hspace c then c = 32 \<and> (cs = [] \<or> \<not> is_hspace (hd cs)) else True) \<and> hs_ok cs)"

text \<open>
  \<^verbatim>\<open>re.split(r'\n\s*(CHAPTER\s+\w+\.?.*|BOOK\s+\w+\.?.*|SECTION\s+\w+\.?.*)\n', txt, flags=re.I)\<close>
  and \<^verbatim>\<open>re.split(r'\n\s*[-=]{3,}\s*\n', txt)\<close>.
\<close>

definition heading :: "unicode_db \<Rightarrow> pystr \<Rightarrow> regex" where
  "heading U w =
     seqs (ci_lits U w @ [plus ws, plus (Cls (is_word U)), opt (lit 46), Star dot])"

definition heading_re :: "unicode_db \<Rightarrow> regex" where
  "heading_re U =
     seqs [lit 10, Star ws,
           Grp 1 (Alt (heading U (py ''CHAPTER''))
                 (Alt (heading U (py ''BOOK'')) (heading U (py ''SECTION'')))),
           lit 10]"

definition is_dash :: "pychar \<Rightarrow> bool" where
  "is_dash c = (c = 45 \<or> c = 61)"

definition dashes_re :: regex where
  "dashes_re =
     seqs [lit 10, Star ws, Cls is_dash, Cls is_dash, Cls is_dash, Star (Cls is_dash),
           Star ws, lit 10]"

text \<open>\<open>str(n)\<close> for a natural number.\<close>

fun str_nat :: "nat \<Rightarrow> pystr" where
  "str_nat n = (if n < 10 then [48 + n] else str_nat (n div 10) @ [48 + n mod 10])"

declare str_nat.simps [simp del]

text \<open>\<open>zip(it, it)\<close> on one iterator: consecutive pairs, a last odd element dropped.\<close>

fun pairs :: "'a list \<Rightarrow> ('a \<times> 'a) list" where
  "pairs (x # y # rest) = (x, y) # pairs rest"
| "pairs rest = []"

text \<open>
  \<^verbatim>\<open>for title, content in zip(it, it): chunks.append((title.strip(), content.strip()))\<close>;
  \<open>strip\<close> on \<open>None\<close> raises.
\<close>

fun restitch :: "(pystr option \<times> pystr option) list \<Rightarrow> error + chunk list" where
  "restitch [] = Inr []"
| "restitch ((Some title, Some content) # rest) =
     (case restitch rest of Inl e \<Rightarrow> Inl e
      | Inr chunks \<Rightarrow> Inr ((strip title, strip content) # chunks))"
| "restitch (other # rest) = Inl AttributeError"

text \<open>
  \<^verbatim>\<open>[(f"Section {i+1}", s.strip()) for i, s in enumerate(rough) if s.strip()]\<close>,
  from index \<open>i\<close> on.
\<close>

fun numbered :: "nat \<Rightarrow> pystr option list \<Rightarrow> error + chunk list" where
  "numbered i [] = Inr []"
| "numbered i (Some s # rest) =
     (case numbered (Suc i) rest of Inl e \<Rightarrow> Inl e
      | Inr chunks \<Rightarrow>
          Inr ((if strip s \<noteq> [] then [(py ''Section '' @ str_nat (i + 1), strip s)] else [])
               @ chunks))"
| "numbered i (None # rest) = Inl AttributeError"

definition split_chapters :: "unicode_db \<Rightarrow> pystr \<Rightarrow> error + chunk list" where
  "split_chapters U txt =
     (let parts = re_split (heading_re U) 1 txt
      in if length parts > 1
         then (case parts of
                 Some head # rest \<Rightarrow>
                   (case restitch (pairs rest) of Inl e \<Rightarrow> Inl e
                    | Inr chunks \<Rightarrow>
                        Inr ((if strip head \<noteq> [] then [(py ''Introduction'', head)] else [])
                             @ chunks))
               | other \<Rightarrow> Inl AttributeError)
         else numbered 0 (re_split dashes_re 0 txt))"

section \<open>The page renderer's escaping\<close>

text \<open>
  \<^verbatim>\<open>def safe_html(s): return s.replace("&","&amp;").replace("<","&lt;").replace(">","&gt;")\<close>
\<close>

definition safe_html :: "pystr \<Rightarrow> pystr" where
  "safe_html s =
     replace_chr 62 (py ''&gt;'') (replace_chr 60 (py ''&lt;'') (replace_chr 38 (py ''&amp;'') s))"

text \<open>The entity that stands for one character of the input.\<close>

definition entity :: "pychar \<Rightarrow> pystr" where
  "entity c = (if c = 38 then py ''&amp;'' else if c = 60 then py ''&lt;''
     else if c = 62 then py ''&gt;'' else [c])"

section \<open>Properties of the escaping\<close>

lemma safe_html_Nil: "safe_html [] = []"
  by (simp add: safe_html_def replace_chr_def)

lemma replace_chr_append: "replace_chr c new (xs @ ys) = replace_chr c new xs @ replace_chr c new ys"
  by (simp add: replace_chr_def)

lemma safe_html_Cons: "safe_html (c # cs) = entity c @ safe_html cs"
proof -
  have split: "c # cs = [c] @ cs" by simp
  have one: "safe_html [c] = entity c"
    by (simp add: safe_html_def replace_chr_def entity_def py_def)
  have "safe_html ([c] @ cs) = safe_html [c] @ safe_html cs"
    unfolding safe_html_def by (simp only: replace_chr_append)
  with one split show ?thesis by simp
qed

text \<open>
  C8.  \<open>safe_html\<close> replaces every \<open>&\<close> by \<open>&amp;\<close>, every \<open><\<close> by \<open>&lt;\<close> and every
  \<open>>\<close> by \<open>&gt;\<close>, each character of the input exactly once and every other character
  left as it is: the result is the concatenation of the entities of the input's
  characters, so the ampersands that the two later substitutions introduce are never
  escaped again.  On the title \<open>a<b&c>d\<close> each entity appears once and \<open>&amp;lt;\<close>,
  \<open>&amp;gt;\<close> do not appear.
\<close>

theorem safe_html_escapes_each_char_once:
  "safe_html s = concat (map entity s)
   \<and> safe_html (py ''a<b&c>d'') = py ''a&lt;b&amp;c&gt;d''
   \<and> \<not> contains (safe_html (py ''a<b&c>d'')) (py ''&amp;lt;'')
   \<and> \<not> contains (safe_html (py ''a<b&c>d'')) (py ''&amp;gt;'')"
proof -
  have gen: "safe_html t = concat (map entity t)" for t
    by (induction t) (simp_all add: safe_html_Nil safe_html_Cons)
  have ex: "safe_html (py ''a<b&c>d'') = py ''a&lt;b&amp;c&gt;d''"
    by (simp add: gen entity_def py_def)
  have n1: "\<not> contains (py ''a&lt;b&amp;c&gt;d'') (py ''&amp;lt;'')"
    by (simp add: py_def)
  have n2: "\<not> contains (py ''a&lt;b&amp;c&gt;d'') (py ''&amp;gt;'')"
    by (simp add: py_def)
  from gen [of s] ex n1 n2 show ?thesis by simp
qed

section \<open>Properties of the section selector\<close>

lemma word_total_Cons: "word_total (p # ps) = length (split_ws p) + word_total ps"
  by (simp add: word_total_def word_count_def)

lemma word_total_Nil: "word_total [] = 0"
  by (simp add: word_total_def)

lemma trim_loop_take:
  "\<exists>k\<le>length ps. trim_loop ps sel wc = sel @ take k ps
     \<and> (sel = [] \<and> ps \<noteq> [] \<longrightarrow> 1 \<le> k)
     \<and> (k = 0 \<or> wc + word_total (take k ps) \<le> 580 \<or> (sel = [] \<and> k = 1))
     \<and> (k < length ps \<longrightarrow> 580 < wc + word_total (take (Suc k) ps))"
proof (induction ps arbitrary: sel wc)
  case Nil
  show ?case by simp
next
  case (Cons p ps)
  let ?w = "length (split_ws p)"
  show ?case
  proof (cases "wc + ?w > 580 \<and> sel \<noteq> []")
    case True
    then have "trim_loop (p # ps) sel wc = sel" by simp
    with True show ?thesis
      by (intro exI [of _ 0]) (simp add: word_total_Cons word_total_Nil)
  next
    case False
    from Cons.IH [of "sel @ [p]" "wc + ?w"] obtain k where k:
      "k \<le> length ps" "trim_loop ps (sel @ [p]) (wc + ?w) = (sel @ [p]) @ take k ps"
      "k = 0 \<or> wc + ?w + word_total (take k ps) \<le> 580 \<or> (sel @ [p] = [] \<and> k = 1)"
      "k < length ps \<longrightarrow> 580 < wc + ?w + word_total (take (Suc k) ps)"
      by blast
    from False have eq: "trim_loop (p # ps) sel wc = trim_loop ps (sel @ [p]) (wc + ?w)"
      by (auto simp add: Let_def)
    have a: "Suc k \<le> length (p # ps)" using k(1) by simp
    have b: "trim_loop (p # ps) sel wc = sel @ take (Suc k) (p # ps)"
      using eq k(2) by simp
    have c: "Suc k = 0 \<or> wc + word_total (take (Suc k) (p # ps)) \<le> 580 \<or> (sel = [] \<and> Suc k = 1)"
    proof (cases "k = 0")
      case True
      with False show ?thesis by (auto simp: word_total_Cons word_total_Nil)
    next
      case False
      with k(3) show ?thesis by (simp add: word_total_Cons)
    qed
    have d: "Suc k < length (p # ps) \<longrightarrow> 580 < wc + word_total (take (Suc (Suc k)) (p # ps))"
      using k(4) by (auto simp add: word_total_Cons)
    from a b c d show ?thesis
      by (intro exI [of _ "Suc k"]) simp
  qed
qed

lemma trim_sel_prefix:
  assumes "paras content \<noteq> []"
  shows "\<exists>k. 1 \<le> k \<and> k \<le> length (paras content)
     \<and> trim_sel content = take k (paras content)
     \<and> hd (trim_sel content) = hd (paras content)
     \<and> (k = 1 \<or> word_total (take k (paras content)) \<le> 580)
     \<and> (k < length (paras content) \<longrightarrow> 580 < word_total (take (Suc k) (paras content)))"
proof -
  from trim_loop_take [of "paras content" "[]" 0] assms obtain k where k:
    "k \<le> length (paras content)" "trim_sel content = take k (paras content)" "1 \<le> k"
    "k = 0 \<or> word_total (take k (paras content)) \<le> 580 \<or> k = 1"
    "k < length (paras content) \<longrightarrow> 580 < word_total (take (Suc k) (paras content))"
    unfolding trim_sel_def by auto
  from k(2,3) assms have "hd (trim_sel content) = hd (paras content)"
    by (cases "paras content"; cases k) simp_all
  with k show ?thesis by (intro exI [of _ k]) auto
qed


lemma dropWhile_hd_self: "xs \<noteq> [] \<Longrightarrow> \<not> P (hd xs) \<Longrightarrow> dropWhile P xs = xs"
  by (cases xs) simp_all

lemma strip_eq_self:
  assumes "s \<noteq> []" "\<not> isspace (hd s)" "\<not> isspace (last s)"
  shows "strip s = s"
proof -
  have "dropWhile isspace s = s" using assms by (simp add: dropWhile_hd_self)
  moreover have "dropWhile isspace (rev s) = rev s"
    using assms by (intro dropWhile_hd_self) (simp_all add: hd_rev)
  ultimately show ?thesis by (simp add: strip_def)
qed

lemma last_dropWhile: "dropWhile P xs \<noteq> [] \<Longrightarrow> last (dropWhile P xs) = last xs"
  by (induction xs) (auto split: if_splits)

lemma strip_ends:
  assumes "strip s \<noteq> []"
  shows "\<not> isspace (hd (strip s)) \<and> \<not> isspace (last (strip s))"
proof -
  let ?d = "dropWhile isspace s"
  let ?e = "dropWhile isspace (rev ?d)"
  from assms have e: "?e \<noteq> []" by (simp add: strip_def)
  have d: "?d \<noteq> []"
  proof
    assume "?d = []"
    with e show False by simp
  qed
  have "last (strip s) = hd ?e" using e by (simp add: strip_def last_rev)
  moreover have "\<not> isspace (hd ?e)" using e by (rule hd_dropWhile)
  moreover have "hd (strip s) = last ?e" using e by (simp add: strip_def hd_rev)
  moreover have "last ?e = last (rev ?d)" using e by (rule last_dropWhile)
  moreover have "last (rev ?d) = hd ?d" using d by (simp add: last_rev)
  moreover have "\<not> isspace (hd ?d)" using d by (rule hd_dropWhile)
  ultimately show ?thesis by simp
qed

lemma paras_elem:
  assumes "p \<in> set (paras content)"
  shows "p \<noteq> [] \<and> \<not> isspace (hd p) \<and> \<not> isspace (last p)"
proof -
  from assms obtain l where "p = strip l" "strip l \<noteq> []"
    by (auto simp: paras_def)
  then show ?thesis using strip_ends [of l] by simp
qed

lemma join_ends:
  "ps \<noteq> [] \<Longrightarrow> \<forall>p\<in>set ps. p \<noteq> [] \<Longrightarrow>
     join sep ps \<noteq> [] \<and> hd (join sep ps) = hd (hd ps) \<and> last (join sep ps) = last (last ps)"
  by (induction sep ps rule: join.induct) auto

lemma trim_sel_subset: "set (trim_sel content) \<subseteq> set (paras content)"
proof -
  from trim_loop_take [of "paras content" "[]" 0] obtain k
    where "trim_sel content = take k (paras content)"
    unfolding trim_sel_def by auto
  then show ?thesis by (simp add: set_take_subset)
qed

lemma chosen_eq_join: "chosen content = join [10, 10] (trim_sel content)"
proof (cases "trim_sel content = []")
  case True
  then show ?thesis by (simp add: chosen_def strip_def)
next
  case False
  have el: "\<forall>p\<in>set (trim_sel content). p \<noteq> [] \<and> \<not> isspace (hd p) \<and> \<not> isspace (last p)"
    using trim_sel_subset paras_elem by blast
  then have ne: "\<forall>p\<in>set (trim_sel content). p \<noteq> []" by blast
  from join_ends [OF False ne, of "[10, 10]"] el False
  have "join [10, 10] (trim_sel content) \<noteq> []"
    "\<not> isspace (hd (join [10, 10] (trim_sel content)))"
    "\<not> isspace (last (join [10, 10] (trim_sel content)))"
    by (simp_all add: hd_in_set last_in_set)
  then show ?thesis unfolding chosen_def by (rule strip_eq_self)
qed

lemma candidates_loop_find:
  "candidates_loop xs =
     map_option (\<lambda>(s, i, t, c). (t, chosen c)) (find (\<lambda>(s, i, t, c). reaches_minimum c) xs)"
  by (induction xs rule: candidates_loop.induct)
     (simp_all add: reaches_minimum_def word_count_def)

lemma sort_reverse_mset: "mset (sort_reverse xs) = mset xs"
  by (simp add: sort_reverse_def)

lemma sort_reverse_set: "set (sort_reverse xs) = set xs"
  by (simp add: sort_reverse_def)

lemma sort_reverse_descending: "sorted_wrt (\<lambda>a b. b \<le> a) (sort_reverse xs)"
  by (simp add: sort_reverse_def sorted_wrt_rev)

lemma ranked_descending: "sorted_wrt (\<lambda>a b. fst b \<le> fst a) (ranked U chunks)"
proof -
  have "sorted_wrt (\<lambda>a b. b \<le> a) (ranked U chunks)"
    unfolding ranked_def by (rule sort_reverse_descending)
  then show ?thesis
    by (rule sorted_wrt_mono_rel [rotated]) (auto simp: less_eq_prod_def)
qed

lemma choose_cases:
  assumes "chunks \<noteq> []"
  shows "(case find (\<lambda>(s, i, t, c). reaches_minimum c) (ranked U chunks) of
            Some (s, i, t, c) \<Rightarrow>
              choose_important_section U chunks = Inr (t, chosen c) \<and> 220 \<le> word_count (chosen c)
          | None \<Rightarrow>
              choose_important_section U chunks = Inr (fst (hd chunks), take 1200 (snd (hd chunks))))"
proof (cases "find (\<lambda>(s, i, t, c). reaches_minimum c) (ranked U chunks)")
  case None
  with assms show ?thesis
    by (cases chunks) (auto simp: choose_important_section_def candidates_loop_find)
next
  case (Some x)
  obtain s i t c where x: "x = (s, i, t, c)" by (cases x)
  from Some x have "reaches_minimum c" by (auto dest: find_Some_iff [THEN iffD1])
  with Some x show ?thesis
    by (simp add: choose_important_section_def candidates_loop_find reaches_minimum_def)
qed

lemma isspace_simps: "isspace 10" "isspace 32" "\<not> isspace 97"
  by (simp_all add: isspace_def)

lemma split_on_sep: "sep \<notin> set x \<Longrightarrow> split_on sep (x @ sep # rest) = x # split_on sep rest"
  by (induction x) auto

lemma split_on_none: "sep \<notin> set x \<Longrightarrow> split_on sep x = [x]"
  by (induction x) auto

lemma split_on_sample_lines: "split_on 10 (sample_lines n) = replicate n [97] @ [[]]"
proof (induction n)
  case 0
  show ?case by (simp add: sample_lines_def)
next
  case (Suc n)
  have "sample_lines (Suc n) = [97] @ 10 # sample_lines n" by (simp add: sample_lines_def)
  then have "split_on 10 (sample_lines (Suc n)) = [97] # split_on 10 (sample_lines n)"
    by (simp only: split_on_sep) simp
  with Suc show ?case by simp
qed

lemma strip_a: "strip [97] = [97]" "strip [] = []"
  by (simp_all add: strip_def isspace_simps)

lemma paras_sample_lines: "paras (sample_lines n) = replicate n [97]"
  by (simp add: paras_def split_on_sample_lines strip_a)

lemma trim_loop_all:
  "wc + word_total ps \<le> 580 \<Longrightarrow> trim_loop ps sel wc = sel @ ps"
  by (induction ps arbitrary: sel wc) (auto simp: word_total_Cons Let_def)

lemma word_count_a: "length (split_ws [97]) = 1"
  by (simp add: split_ws_def isspace_simps)

lemma word_total_replicate_a: "word_total (replicate n [97]) = n"
  by (induction n) (simp_all add: word_total_Nil word_total_Cons word_count_a)

lemma trim_sel_sample_lines: "n \<le> 580 \<Longrightarrow> trim_sel (sample_lines n) = replicate n [97]"
  by (simp add: trim_sel_def paras_sample_lines trim_loop_all word_total_replicate_a)

lemma join_replicate_a:
  "join [10, 10] (replicate (Suc (Suc n)) [97]) = [97, 10, 10] @ join [10, 10] (replicate (Suc n) [97])"
  by simp

lemma split_ws_a_nl: "split_ws ([97, 10, 10] @ r) = [97] # split_ws r"
  by (simp add: split_ws_def isspace_simps)

lemma word_count_join_Suc: "word_count (join [10, 10] (replicate (Suc n) [97])) = Suc n"
proof (induction n)
  case 0
  show ?case by (simp add: word_count_def word_count_a)
next
  case (Suc n)
  have "word_count (join [10, 10] (replicate (Suc (Suc n)) [97]))
      = length (split_ws ([97, 10, 10] @ join [10, 10] (replicate (Suc n) [97])))"
    by (simp only: join_replicate_a word_count_def)
  also have "\<dots> = Suc (word_count (join [10, 10] (replicate (Suc n) [97])))"
    by (simp only: split_ws_a_nl word_count_def) simp
  finally show ?case using Suc by simp
qed

lemma word_count_join_a: "word_count (join [10, 10] (replicate n [97])) = n"
proof (cases n)
  case 0
  then show ?thesis by (simp add: word_count_def split_ws_def)
next
  case (Suc m)
  with word_count_join_Suc [of m] show ?thesis by simp
qed

lemma chosen_sample_lines:
  "n \<le> 580 \<Longrightarrow> chosen (sample_lines n) = join [10, 10] (replicate n [97])"
  by (simp add: chosen_eq_join trim_sel_sample_lines)

lemma reaches_sample_lines: "220 \<le> n \<Longrightarrow> n \<le> 580 \<Longrightarrow> reaches_minimum (sample_lines n)"
  by (simp add: reaches_minimum_def chosen_sample_lines word_count_join_a)

lemma chosen_empty: "chosen [] = []"
  by (simp add: chosen_def trim_sel_def paras_def strip_def)

lemma not_reaches_empty: "\<not> reaches_minimum []"
  by (simp add: reaches_minimum_def chosen_empty word_count_def split_ws_def)

lemma contains_sublist: "contains t kw \<longleftrightarrow> sublist kw t"
  by (induction t) (simp_all add: sublist_Cons_right)

lemma kw_loop_funpow:
  "kw_loop t kws a = ((\<lambda>a. fadd a (fl (7 / 10))) ^^ length (filter (\<lambda>kw. sublist kw t) kws)) a"
proof -
  define f where "f = (\<lambda>a. fadd a (fl (7 / 10)))"
  have "kw_loop t kws a = (f ^^ length (filter (\<lambda>kw. sublist kw t) kws)) a"
  proof (induction kws arbitrary: a)
    case Nil
    show ?case by simp
  next
    case (Cons kw kws)
    have "kw_loop t (kw # kws) a = kw_loop t kws (if sublist kw t then f a else a)"
      by (simp add: contains_sublist f_def)
    also have "\<dots> = (f ^^ length (filter (\<lambda>kw. sublist kw t) kws)) (if sublist kw t then f a else a)"
      by (rule Cons.IH)
    also have "\<dots> = (f ^^ length (filter (\<lambda>kw. sublist kw t) (kw # kws))) a"
      by (simp add: funpow_swap1)
    finally show ?case .
  qed
  then show ?thesis by (simp add: f_def)
qed

lemma length_score_fit:
  "(if int w < 220 then fsub 1 (int_truediv (220 - int w) 220)
    else if int w > 900 then fsub 1 (int_truediv (int w - 900) 900) else 1) = length_fit w"
proof -
  have a: "w < 220 \<Longrightarrow> (of_int (220 - int w) :: rat) = of_nat (220 - w)"
    by (simp add: of_nat_diff)
  have b: "900 < w \<Longrightarrow> (of_int (int w - 900) :: rat) = of_nat (w - 900)"
    by (simp add: of_nat_diff)
  show ?thesis by (simp add: length_fit_def int_truediv_def a b)
qed

lemma section_score_decomp:
  "section_score U i t c =
     fadd (fadd (length_fit (word_count c)) (keyword_boost (length (keyword_matches U t c))))
       (position_boost i)"
proof -
  have k: "kw_loop (str_lower U (t @ [10] @ take 300 c)) KEYWORDS 0
      = keyword_boost (length (keyword_matches U t c))"
    by (simp only: kw_loop_funpow keyword_boost_def keyword_matches_def)
  have p: "max 0 (fsub (1 / 2) (fmul (float_of_int (int i)) (fl (3 / 100)))) = position_boost i"
    by (simp add: position_boost_def float_of_int_def)
  show ?thesis
    unfolding section_score_def Let_def k p word_count_def [symmetric]
    by (simp only: length_score_fit)
qed

text \<open>
  C3.  The score of the section at index \<open>i\<close> is the float sum
  \<open>(length_fit + keyword) + position\<close>: \<open>length_fit\<close> is 1.0 less \<open>(220 - w) / 220\<close>
  below 220 words, less \<open>(w - 900) / 900\<close> above 900 words; \<open>keyword\<close> adds 0.7 once for
  every keyword of the list that is a substring of the lower-cased title, newline and
  first 300 characters of the content; \<open>position\<close> is \<open>max(0, 0.5 - 0.03 i)\<close>.
\<close>

theorem section_score_is_sum_of_three:
  "section_score U i t c =
     fadd (fadd (length_fit (word_count c)) (keyword_boost (length (keyword_matches U t c))))
       (position_boost i)"
  by (rule section_score_decomp)

text \<open>
  C4.  For a section with at least one paragraph (a line that is not empty once stripped),
  the trimming loop keeps the first \<open>k\<close> paragraphs, in order, for some \<open>k \<ge> 1\<close>: the
  first paragraph is always kept, whatever its length; beyond it the kept paragraphs
  total at most 580 words; and the loop stops only before a paragraph that would push
  the total past 580.
\<close>

theorem trimming_keeps_greedy_prefix:
  assumes "paras content \<noteq> []"
  shows "\<exists>k. 1 \<le> k \<and> k \<le> length (paras content)
     \<and> trim_sel content = take k (paras content)
     \<and> hd (trim_sel content) = hd (paras content)
     \<and> (k = 1 \<or> word_total (take k (paras content)) \<le> 580)
     \<and> (k < length (paras content) \<longrightarrow> 580 < word_total (take (Suc k) (paras content)))"
  using assms by (rule trim_sel_prefix)

text \<open>
  C1.  For a non-empty list of sections: the ranked list holds every section with its
  score, in score-descending order; if some candidate of it reaches 220 words after
  trimming, the function returns the title and the trimmed content of the first such
  candidate, which has at least 220 words; if none does, it returns the first section's
  title with the first 1200 characters of its raw content.
\<close>

theorem first_ranked_candidate_or_fallback:
  assumes "chunks \<noteq> []"
  shows "(case find (\<lambda>(s, i, t, c). reaches_minimum c) (ranked U chunks) of
            Some (s, i, t, c) \<Rightarrow>
              choose_important_section U chunks = Inr (t, chosen c) \<and> 220 \<le> word_count (chosen c)
          | None \<Rightarrow>
              choose_important_section U chunks = Inr (fst (hd chunks), take 1200 (snd (hd chunks))))
     \<and> sorted_wrt (\<lambda>a b. fst b \<le> fst a) (ranked U chunks)
     \<and> mset (ranked U chunks) = mset (scored U chunks)"
  using choose_cases [OF assms] ranked_descending
  by (simp add: ranked_def sort_reverse_mset)

lemma ranked_single: "ranked U [(t, c)] = [(section_score U 0 t c, 0, t, c)]"
  by (simp add: ranked_def scored_def sort_reverse_def)

theorem first_ranked_candidate_or_fallback_witness:
  "[([65], sample_lines 220)] \<noteq> ([] :: chunk list)
   \<and> choose_important_section ascii_db [([65], sample_lines 220)]
       = Inr ([65], join [10, 10] (replicate 220 [97]))
   \<and> [([65], [97, 32, 98])] \<noteq> ([] :: chunk list)
   \<and> choose_important_section ascii_db [([65], [97, 32, 98])] = Inr ([65], [97, 32, 98])"
proof -
  have ne: "[([65], sample_lines 220)] \<noteq> ([] :: chunk list)" by simp
  have r: "reaches_minimum (sample_lines 220)" by (simp add: reaches_sample_lines)
  have c: "chosen (sample_lines 220) = join [10, 10] (replicate 220 [97])"
    by (simp add: chosen_sample_lines)
  have one: "choose_important_section ascii_db [([65], sample_lines 220)]
       = Inr ([65], join [10, 10] (replicate 220 [97]))"
    using first_ranked_candidate_or_fallback [OF ne, of ascii_db] r
    by (simp add: ranked_single c)
  have ne2: "[([65], [97, 32, 98])] \<noteq> ([] :: chunk list)" by simp
  have ch: "chosen [97, 32, 98] = [97, 32, 98]"
    by (simp add: chosen_def trim_sel_def paras_def strip_def isspace_def split_ws_def)
  have r2: "\<not> reaches_minimum [97, 32, 98]"
    by (simp add: reaches_minimum_def ch word_count_def split_ws_def isspace_def)
  have two: "choose_important_section ascii_db [([65], [97, 32, 98])] = Inr ([65], [97, 32, 98])"
    using first_ranked_candidate_or_fallback [OF ne2, of ascii_db] r2
    by (simp add: ranked_single)
  from one two show ?thesis by simp
qed

lemma scored_set: "(s, i, t, c) \<in> set (scored U chunks) \<Longrightarrow> (t, c) \<in> set chunks"
  by (auto simp: scored_def dest: set_zip_rightD)

lemma ranked_set: "set (ranked U chunks) = set (scored U chunks)"
  by (simp add: ranked_def sort_reverse_set)

lemma reaches_paras: "reaches_minimum c \<Longrightarrow> paras c \<noteq> []"
  by (auto simp: reaches_minimum_def chosen_def trim_sel_def strip_def word_count_def split_ws_def)

text \<open>
  C10.  When the loop over the candidates returns (the non-fallback path), the returned
  content is the first \<open>k\<close> stripped, non-empty paragraphs of a section with the returned
  title, for some \<open>k \<ge> 1\<close>, in their order and joined by blank lines.
\<close>

theorem non_fallback_content_is_paragraph_prefix:
  assumes "candidates_loop (ranked U chunks) = Some (t, c)"
  shows "choose_important_section U chunks = Inr (t, c)
     \<and> (\<exists>content k. (t, content) \<in> set chunks \<and> 1 \<le> k \<and> k \<le> length (paras content)
           \<and> c = join [10, 10] (take k (paras content)))"
proof -
  from assms obtain s i content where
    f: "find (\<lambda>(s, i, t, c). reaches_minimum c) (ranked U chunks) = Some (s, i, t, content)"
    and c: "c = chosen content"
    by (auto simp: candidates_loop_find)
  from f have mem: "(s, i, t, content) \<in> set (ranked U chunks)" and r: "reaches_minimum content"
    by (auto simp: find_Some_iff in_set_conv_nth)
  from mem have ch: "(t, content) \<in> set chunks"
    by (auto simp: ranked_set dest: scored_set)
  from trim_sel_prefix [OF reaches_paras [OF r]] obtain k where
    k: "1 \<le> k" "k \<le> length (paras content)" "trim_sel content = take k (paras content)"
    by blast
  from c k(3) have "c = join [10, 10] (take k (paras content))"
    by (simp add: chosen_eq_join)
  with ch k(1,2) assms show ?thesis
    by (auto simp: choose_important_section_def)
qed

theorem non_fallback_content_is_paragraph_prefix_witness:
  "candidates_loop (ranked ascii_db [([65], sample_lines 220)])
     = Some ([65], join [10, 10] (replicate 220 [97]))
   \<and> choose_important_section ascii_db [([65], sample_lines 220)]
     = Inr ([65], join [10, 10] (replicate 220 [97]))
   \<and> (\<exists>content k. ([65], content) \<in> set [([65] :: pystr, sample_lines 220)] \<and> 1 \<le> k
         \<and> k \<le> length (paras content)
         \<and> join [10, 10] (replicate 220 [97]) = join [10, 10] (take k (paras content)))"
proof -
  have h: "candidates_loop (ranked ascii_db [([65], sample_lines 220)])
     = Some ([65], join [10, 10] (replicate 220 [97]))"
    by (simp add: candidates_loop_find ranked_single reaches_sample_lines chosen_sample_lines)
  from h non_fallback_content_is_paragraph_prefix [OF h] show ?thesis by blast
qed

lemma split_ws_from_trailing:
  "isspace sp \<Longrightarrow> split_ws_from w (xs @ [sp]) = split_ws_from w xs"
  by (induction xs arbitrary: w) simp_all

lemma split_ws_from_trailing_run:
  "\<forall>x\<in>set b. isspace x \<Longrightarrow> split_ws_from w (a @ b) = split_ws_from w a"
proof (induction b rule: rev_induct)
  case Nil
  show ?case by simp
next
  case (snoc x b)
  have "split_ws_from w (a @ b @ [x]) = split_ws_from w ((a @ b) @ [x])" by simp
  also have "\<dots> = split_ws_from w (a @ b)" using snoc.prems by (intro split_ws_from_trailing) simp
  finally show ?case using snoc by simp
qed

lemma split_ws_leading: "split_ws (dropWhile isspace s) = split_ws s"
  by (induction s) (simp_all add: split_ws_def)

lemma word_count_strip: "word_count (strip s) = word_count s"
proof -
  let ?d = "dropWhile isspace s"
  have "rev (dropWhile isspace (rev ?d)) @ rev (takeWhile isspace (rev ?d)) = ?d"
    by (metis rev_append rev_rev_ident takeWhile_dropWhile_id)
  then have "split_ws ?d = split_ws_from [] (strip s @ rev (takeWhile isspace (rev ?d)))"
    by (simp add: split_ws_def strip_def)
  also have "\<dots> = split_ws (strip s)"
    unfolding split_ws_def by (rule split_ws_from_trailing_run) (auto dest: set_takeWhileD)
  finally show ?thesis by (simp add: word_count_def split_ws_leading)
qed

lemma word_count_sample_words: "word_count (sample_words n) = n"
  by (induction n) (simp_all add: sample_words_def word_count_def split_ws_def isspace_simps)

lemma paras_sample_words: "paras (sample_words (Suc n)) = [strip (sample_words (Suc n))]"
proof -
  have "10 \<notin> set (sample_words (Suc n))" by (auto simp: sample_words_def)
  then have s: "split_on 10 (sample_words (Suc n)) = [sample_words (Suc n)]"
    by (rule split_on_none)
  have "word_count (strip (sample_words (Suc n))) = Suc n"
    by (simp add: word_count_strip word_count_sample_words)
  then have "strip (sample_words (Suc n)) \<noteq> []"
    by (auto simp: word_count_def split_ws_def)
  with s show ?thesis by (simp add: paras_def)
qed

theorem trimming_keeps_greedy_prefix_witness:
  "paras (sample_words 581) \<noteq> []
   \<and> 580 < word_count (hd (paras (sample_words 581)))
   \<and> hd (trim_sel (sample_words 581)) = hd (paras (sample_words 581))"
proof -
  have p: "paras (sample_words 581) = [strip (sample_words 581)]"
    using paras_sample_words [of 580] by simp
  then have ne: "paras (sample_words 581) \<noteq> []" by simp
  have w: "580 < word_count (hd (paras (sample_words 581)))"
    by (simp add: p word_count_strip word_count_sample_words)
  from trimming_keeps_greedy_prefix [OF ne] ne w show ?thesis by blast
qed

lemma sorted_two:
  assumes "sorted ys" "a \<in> set ys" "b \<in> set ys" "a < b"
  shows "\<exists>p m q. ys = p @ [a] @ m @ [b] @ q"
proof -
  from assms(2) obtain p r where ys: "ys = p @ a # r"
    by (auto dest: split_list)
  have "b \<notin> set p"
  proof
    assume "b \<in> set p"
    with assms(1) ys have "b \<le> a" by (simp add: sorted_append)
    with assms(4) show False by simp
  qed
  with assms(3,4) ys have "b \<in> set r" by auto
  then obtain m q where "r = m @ b # q" by (auto dest: split_list)
  with ys show ?thesis by auto
qed

lemma sort_reverse_greater_first:
  assumes "a \<in> set xs" "b \<in> set xs" "a < b"
  shows "\<exists>pre mid post. sort_reverse xs = pre @ [b] @ mid @ [a] @ post"
proof -
  have "sorted (sort (rev xs))" by simp
  moreover have "a \<in> set (sort (rev xs))" "b \<in> set (sort (rev xs))" using assms by simp_all
  ultimately obtain p m q where "sort (rev xs) = p @ [a] @ m @ [b] @ q"
    using assms(3) sorted_two by blast
  then have "sort_reverse xs = rev q @ [b] @ rev m @ [a] @ rev p"
    by (simp add: sort_reverse_def)
  then show ?thesis by blast
qed

lemma scored_nth:
  "i < length chunks \<Longrightarrow>
     scored U chunks ! i
       = (section_score U i (fst (chunks ! i)) (snd (chunks ! i)), i, fst (chunks ! i), snd (chunks ! i))"
  by (simp add: scored_def case_prod_beta)

lemma scored_length: "length (scored U chunks) = length chunks"
  by (simp add: scored_def)

lemma scored_indices: "map (\<lambda>x. fst (snd x)) (scored U chunks) = [0 ..< length chunks]"
  by (rule nth_equalityI) (simp_all add: scored_length scored_nth)

lemma scored_distinct: "distinct (scored U chunks)"
proof -
  have "distinct (map (\<lambda>x. fst (snd x)) (scored U chunks))"
    by (simp only: scored_indices distinct_upt)
  then show ?thesis by (simp add: distinct_map)
qed

lemma ranked_distinct: "distinct (ranked U chunks)"
  using scored_distinct [of U chunks] sort_reverse_mset [of "scored U chunks"]
  by (metis mset_eq_imp_distinct_iff ranked_def)

lemma equal_scores_later_first:
  assumes "i < j" "j < length chunks"
    and "section_score U i (fst (chunks ! i)) (snd (chunks ! i))
       = section_score U j (fst (chunks ! j)) (snd (chunks ! j))"
  shows "\<exists>pre mid post.
     ranked U chunks = pre @ [scored U chunks ! j] @ mid @ [scored U chunks ! i] @ post"
proof -
  have "scored U chunks ! i < scored U chunks ! j"
    using assms by (simp add: scored_nth less_prod_def)
  moreover have "scored U chunks ! i \<in> set (scored U chunks)"
    "scored U chunks ! j \<in> set (scored U chunks)"
    using assms by (simp_all add: scored_length)
  ultimately show ?thesis
    unfolding ranked_def by (intro sort_reverse_greater_first)
qed

lemma find_after_failures:
  "\<forall>x\<in>set pre. \<not> P x \<Longrightarrow> P b \<Longrightarrow> find P (pre @ b # rest) = Some b"
  by (induction pre) simp_all

lemma no_keyword:
  assumes "set t \<subseteq> {10, 97, 114, 115}"
  shows "filter (\<lambda>kw. sublist kw t) KEYWORDS = []"
proof -
  have "\<not> sublist kw t" if "kw \<in> set KEYWORDS" for kw
  proof
    assume "sublist kw t"
    then have "set kw \<subseteq> {10, 97, 114, 115}" using assms set_mono_sublist by blast
    with that show False by (auto simp: KEYWORDS_def py_def)
  qed
  then show ?thesis by (simp add: filter_empty_conv)
qed

lemma position_boost_late: "position_boost 17 = 0" "position_boost 18 = 0"
  by (code_simp, code_simp)

lemma sample_lines_chars: "set (sample_lines n) \<subseteq> {10, 97}"
  by (auto simp: sample_lines_def)

lemma keyword_matches_tie:
  assumes "c = 82 \<or> c = 83"
  shows "keyword_matches ascii_db [c] (sample_lines n) = []"
proof -
  have "set (take 300 (sample_lines n)) \<subseteq> {10, 97}"
    using sample_lines_chars set_take_subset by fastforce
  then have "set (str_lower ascii_db ([c] @ [10] @ take 300 (sample_lines n))) \<subseteq> {10, 97, 114, 115}"
    using assms by (auto simp: ascii_db_def ascii_tolower_def)
  then show ?thesis unfolding keyword_matches_def by (rule no_keyword)
qed

lemma tie_chunks_nth:
  "length tie_chunks = 19" "tie_chunks ! 17 = ([82], sample_lines 220)"
  "tie_chunks ! 18 = ([83], sample_lines 220)"
  by (simp_all add: tie_chunks_def)

lemma tie_chunks_short: "k < 17 \<Longrightarrow> snd (tie_chunks ! k) = []"
  by (simp add: tie_chunks_def)

lemma tie_scores_equal:
  "section_score ascii_db 17 [82] (sample_lines 220) = section_score ascii_db 18 [83] (sample_lines 220)"
  by (simp add: section_score_decomp keyword_matches_tie position_boost_late)

text \<open>
  C2, evaluated on nineteen sections, the last two (indices 17 and 18, titles \<open>R\<close> and
  \<open>S\<close>) with the same 220-word content and the others empty: the two scores are equal,
  the section at index 18 is ranked before the one at index 17, and the function returns
  the title of index 18.
\<close>

theorem tie_returns_later_section:
  "section_score ascii_db 17 (fst (tie_chunks ! 17)) (snd (tie_chunks ! 17))
     = section_score ascii_db 18 (fst (tie_chunks ! 18)) (snd (tie_chunks ! 18))
   \<and> (\<exists>pre mid post. ranked ascii_db tie_chunks
         = pre @ [scored ascii_db tie_chunks ! 18] @ mid @ [scored ascii_db tie_chunks ! 17] @ post)
   \<and> choose_important_section ascii_db tie_chunks
       = Inr (fst (tie_chunks ! 18), join [10, 10] (replicate 220 [97]))
   \<and> fst (tie_chunks ! 18) = [83] \<and> fst (tie_chunks ! 17) = [82]"
proof -
  let ?P = "\<lambda>(s :: rat, i :: nat, t :: pystr, c). reaches_minimum c"
  let ?a = "scored ascii_db tie_chunks ! 17"
  let ?b = "scored ascii_db tie_chunks ! 18"
  have eq: "section_score ascii_db 17 (fst (tie_chunks ! 17)) (snd (tie_chunks ! 17))
     = section_score ascii_db 18 (fst (tie_chunks ! 18)) (snd (tie_chunks ! 18))"
    by (simp add: tie_chunks_nth tie_scores_equal)
  from equal_scores_later_first [of 17 18 tie_chunks ascii_db, OF _ _ eq]
  obtain pre mid post where r: "ranked ascii_db tie_chunks = pre @ [?b] @ mid @ [?a] @ post"
    by (auto simp: tie_chunks_nth)
  have b: "?b = (section_score ascii_db 18 [83] (sample_lines 220), 18, [83], sample_lines 220)"
    by (simp add: scored_nth tie_chunks_nth)
  have Pb: "?P ?b" by (simp add: b reaches_sample_lines)
  have d: "distinct (pre @ [?b] @ mid @ [?a] @ post)"
    using ranked_distinct [of ascii_db tie_chunks] r by simp
  have fail: "\<not> ?P x" if x: "x \<in> set pre" for x
  proof -
    from x r have "x \<in> set (scored ascii_db tie_chunks)"
      using ranked_set [of ascii_db tie_chunks] by auto
    then obtain k where k: "k < 19" "x = scored ascii_db tie_chunks ! k"
      by (auto simp: in_set_conv_nth scored_length tie_chunks_nth)
    from d x have "x \<noteq> ?a" "x \<noteq> ?b" by auto
    with k have "k \<noteq> 17" "k \<noteq> 18" by auto
    with k(1) have "k < 17" by simp
    with k show ?thesis
      by (simp add: scored_nth tie_chunks_nth tie_chunks_short not_reaches_empty)
  qed
  have "find ?P (ranked ascii_db tie_chunks) = Some ?b"
    unfolding r using fail Pb by (simp add: find_after_failures)
  then have "choose_important_section ascii_db tie_chunks
       = Inr (fst (tie_chunks ! 18), join [10, 10] (replicate 220 [97]))"
    by (simp add: choose_important_section_def candidates_loop_find b tie_chunks_nth
        chosen_sample_lines)
  with eq r show ?thesis by (simp add: tie_chunks_nth) blast
qed

section \<open>Properties of the matcher\<close>

lemma find_in_set: "find P xs = Some x \<Longrightarrow> x \<in> set xs \<and> P x"
  by (induction xs) (auto split: if_splits)

lemma ends_bounds:
  "(j, h) \<in> set (ends r tx (i, g)) \<Longrightarrow> i \<le> j \<and> (i \<le> length tx \<longrightarrow> j \<le> length tx)"
proof (induction r tx "(i, g)" arbitrary: i g j h rule: ends.induct)
  case (1 p tx i g)
  then show ?case by (auto simp: ends.simps split: if_splits)
next
  case (2 tx i g)
  then show ?case by (simp add: ends.simps)
next
  case (3 a b tx i g)
  from "3.prems" obtain k l where m: "(k, l) \<in> set (ends a tx (i, g))" "(j, h) \<in> set (ends b tx (k, l))"
    by (auto simp: ends.simps)
  from "3.hyps"(1) [OF m(1)] "3.hyps"(2) [OF m(1) m(2)] show ?case by auto
next
  case (4 a b tx i g)
  then show ?case by (auto simp: ends.simps)
next
  case (5 a tx i g)
  from "5.prems" consider "(j, h) = (i, g)"
    | k l where "(k, l) \<in> set (ends a tx (i, g))" "i < k" "k \<le> length tx"
        "(j, h) \<in> set (ends (Star a) tx (k, l))"
    by (subst (asm) ends.simps) (auto split: if_splits)
  then show ?case
  proof cases
    case 1
    then show ?thesis by simp
  next
    case 2
    from "5.hyps"(2) [OF 2(1) _ 2(4)] 2(2,3)
    show ?thesis by auto
  qed
next
  case (6 a tx i g)
  from "6.prems" consider "(j, h) = (i, g)"
    | k l where "(k, l) \<in> set (ends a tx (i, g))" "i < k" "k \<le> length tx"
        "(j, h) \<in> set (ends (Lazy a) tx (k, l))"
    by (subst (asm) ends.simps) (auto split: if_splits)
  then show ?case
  proof cases
    case 1
    then show ?thesis by simp
  next
    case 2
    from "6.hyps"(2) [OF 2(1) _ 2(4)] 2(2,3)
    show ?thesis by auto
  qed
next
  case (7 n a tx i g)
  then show ?case by (auto simp: ends.simps)
next
  case (8 w tx i g)
  then show ?case by (auto simp: ends.simps split: if_splits)
qed

lemma match_at_bounds:
  assumes "match_at r tx i adv = Some (j, g)" "i \<le> length tx"
  shows "i \<le> j \<and> j \<le> length tx \<and> (i < j \<or> \<not> adv)"
proof -
  from assms(1) have "(j, g) \<in> set (ends r tx (i, Map.empty))" "i < j \<or> \<not> adv"
    using find_in_set [of "\<lambda>st. i < fst st \<or> \<not> adv" "ends r tx (i, Map.empty)" "(j, g)"]
    by (simp_all add: match_at_def)
  with ends_bounds [of j g r tx i Map.empty] assms(2) show ?thesis by auto
qed

lemma search_bounds:
  "search r tx i adv = Some (s, e, g) \<Longrightarrow>
     i \<le> s \<and> s \<le> e \<and> e \<le> length tx \<and> (i < e \<or> \<not> adv)"
proof (induction r tx i adv rule: search.induct)
  case (1 r tx i adv)
  show ?case
  proof (cases "length tx < i")
    case True
    with "1.prems" show ?thesis by (simp add: search.simps)
  next
    case False
    show ?thesis
    proof (cases "match_at r tx i adv")
      case None
      with False "1.prems" have "search r tx (Suc i) False = Some (s, e, g)"
        by (simp add: search.simps)
      from "1.IH" [OF False None this] show ?thesis by auto
    next
      case (Some m)
      obtain j h where m: "m = (j, h)" by (cases m)
      with Some False "1.prems" have "s = i" "e = j" by (simp_all add: search.simps)
      with match_at_bounds [of r tx i adv j h] Some m False show ?thesis by auto
    qed
  qed
qed

lemma sub_loop_unfold:
  "sub_loop r repl tx i adv =
     (case search r tx i adv of
        None \<Rightarrow> drop i tx
      | Some (s, e, g) \<Rightarrow> take (s - i) (drop i tx) @ repl g @ sub_loop r repl tx e (e = s))"
  by (subst sub_loop.simps) (auto split: option.splits dest: search_bounds)

lemma split_loop_unfold:
  "split_loop r n tx i adv =
     (case search r tx i adv of
        None \<Rightarrow> [Some (drop i tx)]
      | Some (s, e, g) \<Rightarrow>
          Some (take (s - i) (drop i tx)) # map (group tx g) [1 ..< Suc n] @
          split_loop r n tx e (e = s))"
  by (subst split_loop.simps) (auto split: option.splits dest: search_bounds)


lemma search_hit:
  "i \<le> length tx \<Longrightarrow> match_at r tx i adv = Some (j, g) \<Longrightarrow> search r tx i adv = Some (i, j, g)"
  by (subst search.simps) simp

lemma search_miss:
  "i \<le> length tx \<Longrightarrow> match_at r tx i adv = None \<Longrightarrow> search r tx i adv = search r tx (Suc i) False"
  by (subst search.simps) simp

lemma search_past: "length tx < i \<Longrightarrow> search r tx i adv = None"
  by (subst search.simps) simp

lemma sub_hit:
  assumes "i \<le> length tx" "match_at r tx i adv = Some (j, g)"
  shows "sub_loop r repl tx i adv = repl g @ sub_loop r repl tx j (j = i)"
  by (subst sub_loop_unfold) (simp add: search_hit [OF assms])

lemma sub_miss:
  assumes "i < length tx" "match_at r tx i adv = None"
  shows "sub_loop r repl tx i adv = tx ! i # sub_loop r repl tx (Suc i) False"
proof -
  from assms have s: "search r tx i adv = search r tx (Suc i) False"
    by (simp add: search_miss)
  have d: "drop i tx = tx ! i # drop (Suc i) tx"
    using assms(1) by (simp add: Cons_nth_drop_Suc)
  show ?thesis
  proof (cases "search r tx (Suc i) False")
    case None
    with s d show ?thesis
      by (subst sub_loop_unfold, subst (2) sub_loop_unfold) simp
  next
    case (Some m)
    obtain a b g where m: "m = (a, b, g)" by (cases m)
    from search_bounds [of r tx "Suc i" False a b g] Some m have "Suc i \<le> a" by simp
    then have "a - i = Suc (a - Suc i)" by simp
    with Some m s d show ?thesis
      by (subst sub_loop_unfold, subst (2) sub_loop_unfold) simp
  qed
qed

lemma sub_end:
  assumes "match_at r tx (length tx) adv = None"
  shows "sub_loop r repl tx (length tx) adv = []"
proof -
  have "search r tx (length tx) adv = None"
    using assms by (simp add: search_miss search_past)
  then show ?thesis by (subst sub_loop_unfold) simp
qed

lemma ends_Cls_Seq:
  "ends (Seq (Cls p) r) tx (i, g) = (if i < length tx \<and> p (tx ! i) then ends r tx (Suc i, g) else [])"
  by (auto simp: ends.simps(1,3))

lemma ends_seqs_Cls:
  "ends (seqs (Cls p # rs)) tx (i, g)
     = (if i < length tx \<and> p (tx ! i) then ends (seqs rs) tx (Suc i, g) else [])"
  by (simp add: seqs_def ends_Cls_Seq)

lemma ends_seqs_Nil: "ends (seqs []) tx (i, g) = [(i, g)]"
  by (simp add: seqs_def ends.simps(2))

lemma ends_seqs_single: "ends (seqs [r]) tx (i, g) = ends r tx (i, g)"
proof -
  have "concat (map (ends Eps tx) xs) = xs" for xs
    by (induction xs) (auto simp: ends.simps(2))
  then show ?thesis by (simp add: seqs_def ends.simps(3))
qed

lemma ends_Star_Cls:
  "ends (Star (Cls p)) tx (i, g)
     = (if i < length tx \<and> p (tx ! i) then ends (Star (Cls p)) tx (Suc i, g) @ [(i, g)] else [(i, g)])"
  by (subst ends.simps(5)) (auto simp: ends.simps(1))

lemma takeWhile_drop_Suc:
  "i < length tx \<Longrightarrow> p (tx ! i) \<Longrightarrow>
     length (takeWhile p (drop i tx)) = Suc (length (takeWhile p (drop (Suc i) tx)))"
  by (simp add: Cons_nth_drop_Suc [symmetric])

lemma takeWhile_drop_stop:
  "i < length tx \<Longrightarrow> \<not> p (tx ! i) \<Longrightarrow> takeWhile p (drop i tx) = []"
  by (simp add: Cons_nth_drop_Suc [symmetric])

lemma ends_Star_Cls_hd:
  "i \<le> length tx \<Longrightarrow>
     \<exists>rest. ends (Star (Cls p)) tx (i, g) = (i + length (takeWhile p (drop i tx)), g) # rest"
proof (induction "length tx - i" arbitrary: i)
  case 0
  then show ?case by (subst ends_Star_Cls) simp
next
  case (Suc n)
  then have lt: "i < length tx" by simp
  show ?case
  proof (cases "p (tx ! i)")
    case True
    from Suc.hyps(2) have "n = length tx - Suc i" by simp
    from Suc.hyps(1) [OF this] lt obtain rest where
      "ends (Star (Cls p)) tx (Suc i, g) = (Suc i + length (takeWhile p (drop (Suc i) tx)), g) # rest"
      by auto
    with True lt show ?thesis
      by (subst ends_Star_Cls) (simp add: takeWhile_drop_Suc)
  next
    case False
    with lt show ?thesis
      by (subst ends_Star_Cls) (simp add: takeWhile_drop_stop)
  qed
qed

lemma match_at_hd:
  "ends r tx (i, Map.empty) = (j, g) # rest \<Longrightarrow> i < j \<Longrightarrow> match_at r tx i adv = Some (j, g)"
  by (simp add: match_at_def)

lemma match_at_Nil: "ends r tx (i, Map.empty) = [] \<Longrightarrow> match_at r tx i adv = None"
  by (simp add: match_at_def)

section \<open>Properties of the normalizer\<close>

lemma match_at_plus_Cls:
  assumes "i \<le> length tx"
  shows "match_at (plus (Cls p)) tx i adv
     = (if i < length tx \<and> p (tx ! i) then Some (i + length (takeWhile p (drop i tx)), Map.empty)
        else None)"
proof (cases "i < length tx \<and> p (tx ! i)")
  case True
  from ends_Star_Cls_hd [of "Suc i" tx p Map.empty] True obtain rest where
    "ends (Star (Cls p)) tx (Suc i, Map.empty)
       = (Suc i + length (takeWhile p (drop (Suc i) tx)), Map.empty) # rest"
    by auto
  with True have "ends (plus (Cls p)) tx (i, Map.empty)
       = (i + length (takeWhile p (drop i tx)), Map.empty) # rest"
    by (simp add: plus_def ends_Cls_Seq takeWhile_drop_Suc)
  from match_at_hd [OF this] True show ?thesis
    by (simp add: takeWhile_drop_Suc)
next
  case False
  then have "ends (plus (Cls p)) tx (i, Map.empty) = []"
    by (auto simp: plus_def ends_Cls_Seq)
  with False show ?thesis by (simp add: match_at_Nil)
qed

lemma match_at_newlines:
  assumes "i \<le> length tx"
  shows "match_at newlines_re tx i adv
     = (if Suc i < length tx \<and> tx ! i = 10 \<and> tx ! Suc i = 10
        then Some (Suc (Suc i) + length (takeWhile (\<lambda>x. x = 10) (drop (Suc (Suc i)) tx)), Map.empty)
        else None)"
proof (cases "Suc i < length tx \<and> tx ! i = 10 \<and> tx ! Suc i = 10")
  case True
  from ends_Star_Cls_hd [of "Suc (Suc i)" tx "\<lambda>x. x = 10" Map.empty] True obtain rest where
    "ends (Star (Cls (\<lambda>x. x = 10))) tx (Suc (Suc i), Map.empty)
       = (Suc (Suc i) + length (takeWhile (\<lambda>x. x = 10) (drop (Suc (Suc i)) tx)), Map.empty) # rest"
    by auto
  with True have "ends newlines_re tx (i, Map.empty)
       = (Suc (Suc i) + length (takeWhile (\<lambda>x. x = 10) (drop (Suc (Suc i)) tx)), Map.empty) # rest"
    by (simp add: newlines_re_def lit_def ends_seqs_Cls ends_seqs_single)
  from match_at_hd [OF this] True show ?thesis by simp
next
  case False
  then have "ends newlines_re tx (i, Map.empty) = []"
    by (auto simp: newlines_re_def lit_def ends_seqs_Cls)
  with False show ?thesis by (simp add: match_at_Nil)
qed

lemma dropWhile_drop:
  "dropWhile p (drop i tx) = drop (i + length (takeWhile p (drop i tx))) tx"
proof -
  have "dropWhile p (drop i tx) = drop (length (takeWhile p (drop i tx))) (drop i tx)"
    by (rule dropWhile_eq_drop)
  then show ?thesis by (simp only: drop_drop add.commute)
qed

lemma sub_hspace:
  "i \<le> length tx \<Longrightarrow> sub_loop hspace_re (\<lambda>g. [32]) tx i False = squeeze_hs (drop i tx)"
proof (induction "length tx - i" arbitrary: i rule: less_induct)
  case less
  show ?case
  proof (cases "i < length tx")
    case False
    with less.prems have i: "i = length tx" by simp
    have "match_at hspace_re tx (length tx) False = None"
      by (simp add: hspace_re_def match_at_plus_Cls)
    then show ?thesis by (simp add: i sub_end)
  next
    case True
    then have d: "drop i tx = tx ! i # drop (Suc i) tx" by (simp add: Cons_nth_drop_Suc)
    show ?thesis
    proof (cases "is_hspace (tx ! i)")
      case hs: True
      let ?j = "i + length (takeWhile is_hspace (drop i tx))"
      have "length (takeWhile is_hspace (drop i tx)) \<le> length tx - i"
        using length_takeWhile_le [of is_hspace "drop i tx"] by simp
      then have j: "i < ?j" "?j \<le> length tx"
        using True hs by (simp_all add: takeWhile_drop_Suc)
      have m: "match_at hspace_re tx i False = Some (?j, Map.empty)"
        using True hs by (simp add: hspace_re_def match_at_plus_Cls)
      have "sub_loop hspace_re (\<lambda>g. [32]) tx i False = [32] @ sub_loop hspace_re (\<lambda>g. [32]) tx ?j False"
        using sub_hit [OF less.prems m] j by simp
      also have "sub_loop hspace_re (\<lambda>g. [32]) tx ?j False = squeeze_hs (drop ?j tx)"
      proof (rule less.hyps)
        show "length tx - ?j < length tx - i" using j by linarith
        show "?j \<le> length tx" by (rule j(2))
      qed
      also have "drop ?j tx = dropWhile is_hspace (drop (Suc i) tx)"
        using True hs by (simp add: dropWhile_drop takeWhile_drop_Suc)
      finally show ?thesis using hs by (simp add: d)
    next
      case nhs: False
      have m: "match_at hspace_re tx i False = None"
        using True nhs by (simp add: hspace_re_def match_at_plus_Cls)
      have "sub_loop hspace_re (\<lambda>g. [32]) tx (Suc i) False = squeeze_hs (drop (Suc i) tx)"
        using True by (intro less.hyps) simp_all
      with sub_miss [OF True m] nhs show ?thesis by (simp add: d)
    qed
  qed
qed

lemma sub_newlines:
  "i \<le> length tx \<Longrightarrow> sub_loop newlines_re (\<lambda>g. [10, 10]) tx i False = squeeze_nl (drop i tx)"
proof (induction "length tx - i" arbitrary: i rule: less_induct)
  case less
  show ?case
  proof (cases "i < length tx")
    case False
    with less.prems have i: "i = length tx" by simp
    have "match_at newlines_re tx (length tx) False = None"
      by (simp add: match_at_newlines)
    then show ?thesis by (simp add: i sub_end)
  next
    case True
    then have d: "drop i tx = tx ! i # drop (Suc i) tx" by (simp add: Cons_nth_drop_Suc)
    have hd: "(drop (Suc i) tx \<noteq> [] \<and> hd (drop (Suc i) tx) = 10) = (Suc i < length tx \<and> tx ! Suc i = 10)"
      by (auto simp: hd_drop_conv_nth)
    show ?thesis
    proof (cases "Suc i < length tx \<and> tx ! i = 10 \<and> tx ! Suc i = 10")
      case run: True
      let ?n = "length (takeWhile (\<lambda>x. x = 10) (drop (Suc (Suc i)) tx))"
      let ?j = "Suc (Suc i) + ?n"
      have "?n \<le> length tx - Suc (Suc i)"
        using length_takeWhile_le [of "\<lambda>x. x = 10" "drop (Suc (Suc i)) tx"] by simp
      then have j: "i < ?j" "?j \<le> length tx" using run by linarith+
      have m: "match_at newlines_re tx i False = Some (?j, Map.empty)"
        using run less.prems by (simp add: match_at_newlines)
      have "sub_loop newlines_re (\<lambda>g. [10, 10]) tx i False
          = [10, 10] @ sub_loop newlines_re (\<lambda>g. [10, 10]) tx ?j False"
        using sub_hit [OF less.prems m] j by simp
      also have "sub_loop newlines_re (\<lambda>g. [10, 10]) tx ?j False = squeeze_nl (drop ?j tx)"
      proof (rule less.hyps)
        show "length tx - ?j < length tx - i" using j by linarith
        show "?j \<le> length tx" by (rule j(2))
      qed
      also have "drop ?j tx = dropWhile (\<lambda>x. x = 10) (drop (Suc i) tx)"
        using run by (simp add: dropWhile_drop takeWhile_drop_Suc)
      finally show ?thesis using run hd by (simp add: d)
    next
      case norun: False
      have m: "match_at newlines_re tx i False = None"
        using norun less.prems by (simp add: match_at_newlines)
      have "sub_loop newlines_re (\<lambda>g. [10, 10]) tx (Suc i) False = squeeze_nl (drop (Suc i) tx)"
        using True by (intro less.hyps) simp_all
      with sub_miss [OF True m] norun hd show ?thesis by (auto simp: d)
    qed
  qed
qed

lemma normalize_spaces_direct: "normalize_spaces s = strip (squeeze_hs (squeeze_nl s))"
  by (simp add: normalize_spaces_def re_sub_def sub_newlines sub_hspace)

lemma squeeze_hs_hd:
  "s \<noteq> [] \<Longrightarrow> \<not> is_hspace (hd s) \<Longrightarrow> squeeze_hs s \<noteq> [] \<and> hd (squeeze_hs s) = hd s"
  by (cases s) simp_all

lemma squeeze_hs_start:
  "t = [] \<or> \<not> is_hspace (hd t) \<Longrightarrow> squeeze_hs t = [] \<or> \<not> is_hspace (hd (squeeze_hs t))"
  by (cases t) auto

lemma squeeze_nl_start:
  "t = [] \<or> hd t \<noteq> 10 \<Longrightarrow> \<not> prefix [10] (squeeze_nl t)"
  by (cases t) auto

lemma dropWhile_hd_not: "dropWhile p s \<noteq> [] \<Longrightarrow> \<not> p (hd (dropWhile p s))"
  by (rule hd_dropWhile)

lemma squeeze_hs_Nil: "squeeze_hs s = [] \<longleftrightarrow> s = []"
  by (cases s) simp_all

lemma hs_ok_squeeze: "hs_ok (squeeze_hs s)"
proof (induction s rule: squeeze_hs.induct)
  case 1
  show ?case by simp
next
  case (2 c cs)
  show ?case
  proof (cases "is_hspace c")
    case True
    let ?t = "dropWhile is_hspace cs"
    have "?t = [] \<or> \<not> is_hspace (hd ?t)" by (metis hd_dropWhile)
    then have "squeeze_hs ?t = [] \<or> \<not> is_hspace (hd (squeeze_hs ?t))"
      by (rule squeeze_hs_start)
    with True 2 show ?thesis by (simp add: is_hspace_def)
  next
    case False
    with 2 show ?thesis by simp
  qed
qed

lemma hs_ok_fix: "hs_ok s \<Longrightarrow> squeeze_hs s = s"
proof (induction s rule: squeeze_hs.induct)
  case 1
  show ?case by simp
next
  case (2 c cs)
  show ?case
  proof (cases "is_hspace c")
    case True
    with "2.prems" have c: "c = 32" and cs: "cs = [] \<or> \<not> is_hspace (hd cs)" and ok: "hs_ok cs"
      by simp_all
    from cs have dw: "dropWhile is_hspace cs = cs" by (cases cs) simp_all
    with "2.IH"(1) [OF True] ok have "squeeze_hs cs = cs" by simp
    with True c dw show ?thesis by simp
  next
    case False
    with 2 show ?thesis by simp
  qed
qed

lemma squeeze_nl_hd:
  "s \<noteq> [] \<Longrightarrow> squeeze_nl s \<noteq> [] \<and> hd (squeeze_nl s) = hd s"
  by (cases s) auto

lemma nl_ok_squeeze: "nl_ok (squeeze_nl s)"
proof (induction s rule: squeeze_nl.induct)
  case 1
  show ?case by simp
next
  case (2 c cs)
  show ?case
  proof (cases "c = 10 \<and> cs \<noteq> [] \<and> hd cs = 10")
    case True
    let ?t = "dropWhile (\<lambda>x. x = 10) cs"
    have "?t = [] \<or> hd ?t \<noteq> 10" by (metis (full_types) hd_dropWhile)
    then have nt: "\<not> prefix [10] (squeeze_nl ?t)" by (rule squeeze_nl_start)
    from "2.IH"(1) [OF True] have "nl_ok (squeeze_nl ?t)" .
    with True nt show ?thesis by (cases "squeeze_nl ?t") auto
  next
    case False
    from "2.IH"(2) [OF False] have ok: "nl_ok (squeeze_nl cs)" .
    have "\<not> prefix [10, 10, 10] (c # squeeze_nl cs)"
    proof (cases "c = 10 \<and> cs \<noteq> []")
      case True
      with False have "hd cs \<noteq> 10" by simp
      with True squeeze_nl_hd [of cs] show ?thesis by (cases "squeeze_nl cs") auto
    next
      case False
      then show ?thesis by (cases cs) auto
    qed
    with False ok show ?thesis by auto
  qed
qed

lemma nl_ok_fix: "nl_ok s \<Longrightarrow> squeeze_nl s = s"
proof (induction s rule: squeeze_nl.induct)
  case 1
  show ?case by simp
next
  case (2 c cs)
  show ?case
  proof (cases "c = 10 \<and> cs \<noteq> [] \<and> hd cs = 10")
    case True
    then obtain ds where cs: "cs = 10 # ds" by (cases cs) auto
    with True "2.prems" have nd: "\<not> prefix [10] ds" and ok: "nl_ok ds" by auto
    then have dw: "dropWhile (\<lambda>x. x = 10) cs = ds" using cs by (cases ds) auto
    from "2.IH"(1) [OF True] ok dw have "squeeze_nl ds = ds" by simp
    with True cs dw show ?thesis by simp
  next
    case False
    with 2 show ?thesis by auto
  qed
qed

lemma nl_ok_drop: "nl_ok s \<Longrightarrow> nl_ok (drop n s)"
proof (induction s arbitrary: n)
  case Nil
  show ?case by simp
next
  case (Cons c cs)
  then show ?case by (cases n) auto
qed

lemma nl_ok_take: "nl_ok s \<Longrightarrow> nl_ok (take n s)"
proof (induction s arbitrary: n)
  case Nil
  show ?case by simp
next
  case (Cons c cs)
  show ?case
  proof (cases n)
    case 0
    then show ?thesis by simp
  next
    case (Suc m)
    have "prefix [10, 10, 10] (c # take m cs) \<Longrightarrow> prefix [10, 10, 10] (c # cs)"
      using take_is_prefix [of m cs] by (meson Cons_prefix_Cons prefix_order.trans)
    with Cons Suc show ?thesis by auto
  qed
qed

lemma hs_ok_drop: "hs_ok s \<Longrightarrow> hs_ok (drop n s)"
proof (induction s arbitrary: n)
  case Nil
  show ?case by simp
next
  case (Cons c cs)
  then show ?case by (cases n) auto
qed

lemma hs_ok_take: "hs_ok s \<Longrightarrow> hs_ok (take n s)"
proof (induction s arbitrary: n)
  case Nil
  show ?case by simp
next
  case (Cons c cs)
  show ?case
  proof (cases n)
    case 0
    then show ?thesis by simp
  next
    case (Suc m)
    have "take m cs = [] \<or> hd (take m cs) = hd cs" by (cases m; cases cs) simp_all
    with Cons Suc show ?thesis by (auto split: if_splits)
  qed
qed

lemma strip_take_drop: "\<exists>k m. strip s = take k (drop m s)"
proof -
  let ?d = "dropWhile isspace s"
  have "rev (dropWhile isspace (rev ?d)) @ rev (takeWhile isspace (rev ?d)) = ?d"
    by (metis rev_append rev_rev_ident takeWhile_dropWhile_id)
  then have "strip s = take (length (strip s)) ?d"
    by (metis append_eq_conv_conj strip_def)
  moreover have "?d = drop (length (takeWhile isspace s)) s" by (rule dropWhile_eq_drop)
  ultimately show ?thesis by metis
qed

lemma nl_ok_strip:
  assumes "nl_ok s"
  shows "nl_ok (strip s)"
proof -
  from strip_take_drop [of s] obtain k m where "strip s = take k (drop m s)" by blast
  with assms show ?thesis by (simp add: nl_ok_take nl_ok_drop)
qed

lemma hs_ok_strip:
  assumes "hs_ok s"
  shows "hs_ok (strip s)"
proof -
  from strip_take_drop [of s] obtain k m where "strip s = take k (drop m s)" by blast
  with assms show ?thesis by (simp add: hs_ok_take hs_ok_drop)
qed

lemma squeeze_hs_keeps_newline:
  "prefix [10] (squeeze_hs s) \<Longrightarrow> \<exists>r. s = 10 # r \<and> squeeze_hs s = 10 # squeeze_hs r"
  by (cases s) (auto simp: is_hspace_def split: if_splits)

lemma squeeze_hs_prefix_nl:
  assumes "prefix [10, 10] (squeeze_hs s)"
  shows "prefix [10, 10] s"
proof -
  from assms have "prefix [10] (squeeze_hs s)" by (auto simp: prefix_def)
  from squeeze_hs_keeps_newline [OF this] obtain r where r: "s = 10 # r" "squeeze_hs s = 10 # squeeze_hs r"
    by blast
  with assms have "prefix [10] (squeeze_hs r)" by simp
  from squeeze_hs_keeps_newline [OF this] obtain q where "r = 10 # q" by blast
  with r show ?thesis by simp
qed

lemma nl_ok_squeeze_hs: "nl_ok s \<Longrightarrow> nl_ok (squeeze_hs s)"
proof (induction s rule: squeeze_hs.induct)
  case 1
  show ?case by simp
next
  case (2 c cs)
  show ?case
  proof (cases "is_hspace c")
    case True
    from "2.prems" have "nl_ok (dropWhile is_hspace cs)"
      by (simp add: dropWhile_eq_drop nl_ok_drop)
    with "2.IH"(1) [OF True] True show ?thesis by simp
  next
    case False
    from "2.prems" have ok: "nl_ok cs" and np: "\<not> prefix [10, 10, 10] (c # cs)" by simp_all
    have "\<not> prefix [10, 10, 10] (c # squeeze_hs cs)"
    proof
      assume "prefix [10, 10, 10] (c # squeeze_hs cs)"
      then have "c = 10" "prefix [10, 10] (squeeze_hs cs)" by simp_all
      with squeeze_hs_prefix_nl [of cs] np show False by simp
    qed
    with "2.IH"(2) [OF False ok] False show ?thesis by simp
  qed
qed

lemma strip_idem: "strip (strip s) = strip s"
proof (cases "strip s = []")
  case True
  show ?thesis unfolding True by (simp add: strip_def)
next
  case False
  with strip_ends [OF False] show ?thesis by (intro strip_eq_self) simp_all
qed

lemma normalize_spaces_twice: "normalize_spaces (normalize_spaces x) = normalize_spaces x"
proof -
  let ?y = "strip (squeeze_hs (squeeze_nl x))"
  have "nl_ok (squeeze_hs (squeeze_nl x))" by (intro nl_ok_squeeze_hs nl_ok_squeeze)
  then have "nl_ok ?y" by (rule nl_ok_strip)
  then have 1: "squeeze_nl ?y = ?y" by (rule nl_ok_fix)
  have "hs_ok ?y" by (intro hs_ok_strip hs_ok_squeeze)
  then have 2: "squeeze_hs ?y = ?y" by (rule hs_ok_fix)
  show ?thesis by (simp add: normalize_spaces_direct 1 2 strip_idem)
qed

text \<open>
  C6.  \<open>normalize_spaces\<close> is idempotent: applying it to its own result changes nothing.
\<close>

theorem normalize_spaces_idempotent:
  "normalize_spaces (normalize_spaces x) = normalize_spaces x"
  by (rule normalize_spaces_twice)

section \<open>Properties of the stripper\<close>

lemma ends_seqs_classes:
  "i \<le> length tx \<Longrightarrow>
   ends (seqs (map Cls ps @ rs)) tx (i, g)
     = (if i + length ps \<le> length tx \<and> list_all2 (\<lambda>p c. p c) ps (take (length ps) (drop i tx))
        then ends (seqs rs) tx (i + length ps, g) else [])"
proof (induction ps arbitrary: i)
  case Nil
  then show ?case by simp
next
  case (Cons p ps)
  show ?case
  proof (cases "i < length tx")
    case True
    then have d: "drop i tx = tx ! i # drop (Suc i) tx" by (simp add: Cons_nth_drop_Suc)
    from True have "Suc i \<le> length tx" by simp
    from Cons.IH [OF this] True show ?thesis by (simp add: ends_seqs_Cls d)
  next
    case False
    then show ?thesis by (simp add: ends_seqs_Cls)
  qed
qed

lemma ends_ci_lits:
  assumes "i \<le> length tx"
  shows "ends (seqs (ci_lits U w @ rs)) tx (i, g)
     = (if opening_at U w tx i then ends (seqs rs) tx (i + length w, g) else [])"
proof -
  have "ci_lits U w = map Cls (map (ci_match U) w)" by (simp add: ci_lits_def)
  then show ?thesis
    by (simp only: ends_seqs_classes [OF assms]) (simp add: opening_at_def list_all2_map1)
qed

lemma ends_Lazy_anychar:
  "i \<le> length tx \<Longrightarrow> ends (Lazy anychar) tx (i, g) = map (\<lambda>j. (j, g)) [i ..< Suc (length tx)]"
proof (induction "length tx - i" arbitrary: i)
  case 0
  then have "i = length tx" by simp
  then show ?case by (subst ends.simps(6)) (simp add: anychar_def ends.simps(1))
next
  case (Suc n)
  then have lt: "i < length tx" and n: "n = length tx - Suc i" by simp_all
  from Suc.hyps(1) [OF n] lt
  have IH: "ends (Lazy anychar) tx (Suc i, g) = map (\<lambda>j. (j, g)) [Suc i ..< Suc (length tx)]" by simp
  have u: "[i ..< Suc (length tx)] = i # [Suc i ..< Suc (length tx)]"
    using lt by (intro upt_conv_Cons) simp
  have "ends (Lazy anychar) tx (i, g) = (i, g) # ends (Lazy anychar) tx (Suc i, g)"
    using lt by (subst ends.simps(6)) (simp add: anychar_def ends.simps(1))
  then show ?case by (simp only: IH u list.map)
qed

lemma stars_length: "length (py ''***'') = 3"
  by (simp add: py_def)

lemma closing_ci:
  "opening_at U (py ''***'') tx j = closing_at tx j"
proof -
  have m: "ci_match U 42 c = (c = 42)" for c by (simp add: ci_match_def)
  have l: "list_all2 (ci_match U) [42, 42, 42] zs = (zs = [42, 42, 42])" for zs
  proof (cases zs)
    case Nil
    then show ?thesis by simp
  next
    case (Cons a as)
    show ?thesis
    proof (cases as)
      case Nil
      with Cons show ?thesis by simp
    next
      case (Cons b bs)
      note bs = this
      show ?thesis
      proof (cases bs)
        case Nil
        with \<open>zs = a # as\<close> bs show ?thesis by simp
      next
        case (Cons c cs)
        with \<open>zs = a # as\<close> bs show ?thesis by (simp add: m)
      qed
    qed
  qed
  have n: "j + 3 \<le> length tx" if "take 3 (drop j tx) = [42, 42, 42]"
  proof -
    from that have "length (take 3 (drop j tx)) = 3" by simp
    then show ?thesis by simp
  qed
  have p: "py ''***'' = [42, 42, 42]" by (simp add: py_def)
  have len: "length [42 :: nat, 42, 42] = 3" by simp
  have "opening_at U [42, 42, 42] tx j = (j + 3 \<le> length tx \<and> take 3 (drop j tx) = [42, 42, 42])"
    unfolding opening_at_def len l ..
  with n show ?thesis unfolding closing_at_def p by blast
qed

lemma ends_closing:
  "j \<le> length tx \<Longrightarrow>
   ends (seqs (ci_lits U (py ''***''))) tx (j, g) = (if closing_at tx j then [(j + 3, g)] else [])"
  using ends_ci_lits [of j tx U "py ''***''" "[]" g]
  by (simp add: closing_ci ends_seqs_Nil stars_length)

lemma ends_group_closing:
  assumes "i \<le> length tx"
  shows "ends (seqs ([Grp 1 (Lazy anychar)] @ ci_lits U (py ''***''))) tx (i, g)
     = concat (map (\<lambda>j. if closing_at tx j then [(j + 3, g(1 \<mapsto> (i, j)))] else [])
         [i ..< Suc (length tx)])"
proof -
  have s: "seqs ([Grp 1 (Lazy anychar)] @ ci_lits U (py ''***''))
      = Seq (Grp 1 (Lazy anychar)) (seqs (ci_lits U (py ''***'')))"
    by (simp add: seqs_def)
  have e: "ends (Grp 1 (Lazy anychar)) tx (i, g)
      = map (\<lambda>j. (j, g(1 \<mapsto> (i, j)))) [i ..< Suc (length tx)]"
    by (simp only: ends.simps(7) ends_Lazy_anychar [OF assms] map_map comp_def fst_conv snd_conv)
  have c: "ends (seqs (ci_lits U (py ''***''))) tx (j, h)
      = (if closing_at tx j then [(j + 3, h)] else [])" if "j \<in> set [i ..< Suc (length tx)]" for j h
    using that assms by (intro ends_closing) auto
  have "concat (map (ends (seqs (ci_lits U (py ''***''))) tx)
            (map (\<lambda>j. (j, g(1 \<mapsto> (i, j)))) [i ..< Suc (length tx)]))
      = concat (map (\<lambda>j. if closing_at tx j then [(j + 3, g(1 \<mapsto> (i, j)))] else [])
          [i ..< Suc (length tx)])"
    unfolding map_map comp_def
    by (rule arg_cong [where f = concat], rule map_cong [OF refl]) (rule c)
  then show ?thesis by (simp only: s ends.simps(3) e)
qed

lemma find_concat_singletons:
  "\<forall>j\<in>set js. P (f j) \<Longrightarrow>
     find P (concat (map (\<lambda>j. if C j then [f j] else []) js)) = map_option f (find C js)"
  by (induction js) simp_all

lemma match_at_marker:
  assumes "s \<le> length tx"
  shows "match_at (marker_re U w) tx s adv
     = (if opening_at U w tx s
        then map_option (\<lambda>k. (k + 3, [1 \<mapsto> (s + length w, k)]))
               (find (closing_at tx) [s + length w ..< Suc (length tx)])
        else None)"
proof (cases "opening_at U w tx s")
  case False
  have "ends (marker_re U w) tx (s, Map.empty) = []"
    unfolding marker_re_def by (simp only: ends_ci_lits [OF assms] False if_False)
  with False show ?thesis by (simp add: match_at_Nil)
next
  case True
  then have le: "s + length w \<le> length tx" by (simp add: opening_at_def)
  have "ends (marker_re U w) tx (s, Map.empty)
      = concat (map (\<lambda>j. if closing_at tx j then [(j + 3, [1 \<mapsto> (s + length w, j)])] else [])
          [s + length w ..< Suc (length tx)])"
    unfolding marker_re_def
    by (simp only: ends_ci_lits [OF assms] True if_True ends_group_closing [OF le])
  moreover have "find (\<lambda>st. s < fst st \<or> \<not> adv)
        (concat (map (\<lambda>j. if closing_at tx j then [(j + 3, [1 \<mapsto> (s + length w, j)])] else [])
          [s + length w ..< Suc (length tx)]))
      = map_option (\<lambda>k. (k + 3, [1 \<mapsto> (s + length w, k)]))
          (find (closing_at tx) [s + length w ..< Suc (length tx)])"
    by (rule find_concat_singletons) auto
  ultimately show ?thesis using True by (simp only: match_at_def if_True)
qed

lemma marker_at_match:
  "s \<le> length tx \<Longrightarrow>
   marker_at U w tx s = map_option (\<lambda>(j, g). (s, j)) (match_at (marker_re U w) tx s adv)"
  by (simp add: marker_at_def match_at_marker option.map_comp comp_def del: One_nat_def)

lemma search_find:
  "i \<le> Suc (length tx) \<Longrightarrow>
   search r tx i False
     = Option.bind (find (\<lambda>s. match_at r tx s False \<noteq> None) [i ..< Suc (length tx)])
         (\<lambda>s. map_option (\<lambda>(j, g). (s, j, g)) (match_at r tx s False))"
proof (induction "Suc (length tx) - i" arbitrary: i)
  case 0
  then have "length tx < i" by simp
  then show ?case by (simp add: search_past)
next
  case (Suc n)
  then have le: "i \<le> length tx" and n: "n = Suc (length tx) - Suc i" by simp_all
  then have u: "[i ..< Suc (length tx)] = i # [Suc i ..< Suc (length tx)]"
    by (simp add: upt_conv_Cons)
  show ?case
  proof (cases "match_at r tx i False")
    case None
    from Suc.hyps(1) [OF n] le None show ?thesis
      by (simp only: search_miss [OF le None] u) simp
  next
    case (Some m)
    obtain j g where m: "m = (j, g)" by (cases m)
    with Some search_hit [OF le, of r False j g] show ?thesis
      by (simp only: u) simp
  qed
qed

lemma re_search_marker:
  "map_option (\<lambda>(s, e, g). (s, e)) (re_search (marker_re U w) tx) = first_marker U w tx"
proof -
  let ?P = "\<lambda>s. match_at (marker_re U w) tx s False \<noteq> None"
  let ?js = "[0 ..< Suc (length tx)]"
  have m: "marker_at U w tx s = map_option (\<lambda>(j, g). (s, j)) (match_at (marker_re U w) tx s False)"
    if "s \<in> set ?js" for s
    using that by (intro marker_at_match) auto
  have P: "find (\<lambda>s. marker_at U w tx s \<noteq> None) ?js = find ?P ?js"
    by (rule find_cong [OF refl]) (simp only: m, simp)
  show ?thesis
  proof (cases "find ?P ?js")
    case None
    then show ?thesis
      by (simp only: re_search_def search_find [OF le0] first_marker_def P) simp
  next
    case (Some s)
    from find_in_set [OF Some] have "s \<in> set ?js" by simp
    from m [OF this] Some show ?thesis
      by (simp only: re_search_def search_find [OF le0] first_marker_def P)
         (cases "match_at (marker_re U w) tx s False"; simp add: case_prod_beta)
  qed
qed

lemma match_at_cr:
  "match_at (lit 13) tx i adv = (if i < length tx \<and> tx ! i = 13 then Some (Suc i, Map.empty) else None)"
  by (simp add: match_at_def lit_def ends.simps(1))

lemma sub_cr:
  "i \<le> length tx \<Longrightarrow> sub_loop (lit 13) (\<lambda>g. []) tx i False = filter (\<lambda>c. c \<noteq> 13) (drop i tx)"
proof (induction "length tx - i" arbitrary: i)
  case 0
  then have i: "i = length tx" by simp
  have "match_at (lit 13) tx (length tx) False = None" by (simp add: match_at_cr)
  then show ?case by (simp add: i sub_end)
next
  case (Suc n)
  then have lt: "i < length tx" and n: "n = length tx - Suc i" by simp_all
  then have d: "drop i tx = tx ! i # drop (Suc i) tx" by (simp add: Cons_nth_drop_Suc)
  from Suc.hyps(1) [OF n] lt
  have IH: "sub_loop (lit 13) (\<lambda>g. []) tx (Suc i) False = filter (\<lambda>c. c \<noteq> 13) (drop (Suc i) tx)"
    by simp
  show ?case
  proof (cases "tx ! i = 13")
    case True
    with lt have "match_at (lit 13) tx i False = Some (Suc i, Map.empty)" by (simp add: match_at_cr)
    from sub_hit [OF Suc.prems this] True IH show ?thesis by (simp add: d)
  next
    case False
    with lt have "match_at (lit 13) tx i False = None" by (simp add: match_at_cr)
    from sub_miss [OF lt this] False IH show ?thesis by (simp add: d)
  qed
qed

lemma strip_gutenberg_boilerplate_between:
  "strip_gutenberg_boilerplate U txt =
     strip (filter (\<lambda>c. c \<noteq> 13)
       (slice txt
          (case first_marker U (py ''*** START OF'') txt of Some (s, e) \<Rightarrow> e | None \<Rightarrow> 0)
          (case first_marker U (py ''*** END OF'') txt of Some (s, e) \<Rightarrow> s | None \<Rightarrow> length txt)))"
proof -
  have a: "(case re_search (marker_re U w) txt of Some (s, e, g) \<Rightarrow> e | None \<Rightarrow> 0)
      = (case first_marker U w txt of Some (s, e) \<Rightarrow> e | None \<Rightarrow> 0)" for w
    by (simp add: re_search_marker [symmetric] split: option.splits)
  have b: "(case re_search (marker_re U w) txt of Some (s, e, g) \<Rightarrow> s | None \<Rightarrow> length txt)
      = (case first_marker U w txt of Some (s, e) \<Rightarrow> s | None \<Rightarrow> length txt)" for w
    by (simp add: re_search_marker [symmetric] split: option.splits)
  show ?thesis
    by (simp add: strip_gutenberg_boilerplate_def Let_def a b re_sub_def sub_cr)
qed

lemma stripper_example:
  "strip_gutenberg_boilerplate ascii_db (py ''x*** start OF t*** a'' @ [13] @ py ''b *** End of t***y'')
     = py ''ab''"
  by (simp add: strip_gutenberg_boilerplate_between first_marker_def marker_at_def opening_at_def
      closing_at_def ci_match_def ascii_db_def ascii_tolower_def ignorecase_fixes_def py_def
      slice_def strip_def isspace_def upt_rec)

text \<open>
  C7.  \<open>strip_gutenberg_boilerplate\<close> is a total function to strings.  Its result is the
  text from the end of the first start marker (the start of the text when there is none)
  up to the beginning of the first end marker (the end of the text when there is none),
  with the carriage returns removed and the whitespace at both ends stripped.  A marker
  is its opening words, in any letter case, up to the first closing \<open>***\<close> after them.
\<close>

theorem strip_gutenberg_boilerplate_between_markers:
  "strip_gutenberg_boilerplate U txt =
     strip (filter (\<lambda>c. c \<noteq> 13)
       (slice txt
          (case first_marker U (py ''*** START OF'') txt of Some (s, e) \<Rightarrow> e | None \<Rightarrow> 0)
          (case first_marker U (py ''*** END OF'') txt of Some (s, e) \<Rightarrow> s | None \<Rightarrow> length txt)))
   \<and> strip_gutenberg_boilerplate ascii_db
         (py ''x*** start OF t*** a'' @ [13] @ py ''b *** End of t***y'') = py ''ab''"
  using strip_gutenberg_boilerplate_between stripper_example by simp

end
